theory Spec2Isabelle
  imports Main "HOL-Library.Word" "HOL-Library.Sublist"
begin

section \<open>Common types\<close>

text \<open>
  Go's \<open>int\<close> on the 64-bit platforms the daemons are built for, \<open>int64\<close>,
  \<open>uint64\<close> and \<open>time.Duration\<close> (an \<open>int64\<close> of nanoseconds) are 64-bit
  words: \<open>+\<close> wraps around and \<open>sint\<close> reads the signed value. A \<open>[]byte\<close> value
  is a list of 8-bit words.
\<close>

type_synonym go_int = "64 word"
type_synonym int64 = "64 word"
type_synonym uint64 = "64 word"
type_synonym duration = "64 word"
type_synonym bytes = "8 word list"

section \<open>The syslog sink (doppler/sinks/syslog/syslog\_sink.go)\<close>

subsection \<open>Envelopes\<close>

text \<open>
  The envelope types come from the protobuf library the sink imports. The sink reads
  them only through nil-safe getters, except for one explicit dereference
  (\<open>*logMessage.Timestamp\<close>). The records below hold what the getters return; the two
  pointers whose nil value matters to the sink (the envelope's log message and the log
  message's timestamp) are options, \<open>None\<close> being nil.
\<close>

datatype Envelope_EventType =
    Envelope_Heartbeat
  | Envelope_HttpStart
  | Envelope_HttpStop
  | Envelope_HttpStartStop
  | Envelope_LogMessage
  | Envelope_ValueMetric
  | Envelope_CounterEvent
  | Envelope_Error
  | Envelope_ContainerMetric

datatype LogMessage_MessageType = LogMessage_OUT | LogMessage_ERR | LogMessage_Other

record LogMessage =
  Message :: bytes
  MessageType :: LogMessage_MessageType
  Timestamp :: "int64 option"
  SourceType :: string
  SourceInstance :: string

record Envelope =
  EventType :: Envelope_EventType
  LogMessageField :: "LogMessage option"

definition GetEventType :: "Envelope \<Rightarrow> Envelope_EventType" where
  "GetEventType v = EventType v"

definition GetLogMessage :: "Envelope \<Rightarrow> LogMessage option" where
  "GetLogMessage v = LogMessageField v"

text \<open>The getters of a log message accept a nil receiver and return the default.\<close>

definition GetMessageType :: "LogMessage option \<Rightarrow> LogMessage_MessageType" where
  "GetMessageType msg = (case msg of None \<Rightarrow> LogMessage_OUT | Some m \<Rightarrow> MessageType m)"

definition GetMessage :: "LogMessage option \<Rightarrow> bytes" where
  "GetMessage msg = (case msg of None \<Rightarrow> [] | Some m \<Rightarrow> Message m)"

definition GetSourceType :: "LogMessage option \<Rightarrow> string" where
  "GetSourceType msg = (case msg of None \<Rightarrow> [] | Some m \<Rightarrow> SourceType m)"

definition GetSourceInstance :: "LogMessage option \<Rightarrow> string" where
  "GetSourceInstance msg = (case msg of None \<Rightarrow> [] | Some m \<Rightarrow> SourceInstance m)"

subsection \<open>The writer and the sink\<close>

text \<open>
  \<open>syslogwriter.Writer\<close> is an interface: the sink is generic over it. A writer is
  a record of its three operations over a state \<open>'w\<close> of its own; a Go \<open>error\<close> is an
  optional message, \<open>None\<close> being nil.
\<close>

type_synonym go_error = "string option"

record 'w Writer =
  Connect :: "'w \<Rightarrow> go_error \<times> 'w"
  Write :: "go_int \<Rightarrow> bytes \<Rightarrow> string \<Rightarrow> string \<Rightarrow> int64 \<Rightarrow> 'w \<Rightarrow> (go_int \<times> go_error) \<times> 'w"
  Close :: "'w \<Rightarrow> 'w"

text \<open>The fields of \<open>SyslogSink\<close> that \<open>Run\<close> reads.\<close>

record SyslogSink =
  appId :: string
  drainUrl :: string
  messageDrainBufferSize :: nat
  dropsondeOrigin :: string

definition Identifier :: "SyslogSink \<Rightarrow> string" where
  "Identifier s = drainUrl s"

definition StreamId :: "SyslogSink \<Rightarrow> string" where
  "StreamId s = appId s"

definition ShouldReceiveErrors :: "SyslogSink \<Rightarrow> bool" where
  "ShouldReceiveErrors s = False"

text \<open>
  What the sink does to its collaborators, in order. The text of the error message is
  \<open>fmt.Sprintf\<close> of the drain URL, the sleep duration and the error; the event keeps
  the three values.
\<close>

datatype call =
    ConnectCalled go_error
  | HandleSendError "string \<times> duration \<times> string" string string
  | TimerReset duration
  | WriteCalled go_int bytes string string int64 go_error
  | CloseCalled

record 'w RunState =
  numberOfTries :: go_int
  connected :: bool
  writer :: 'w
  bufferOut :: "Envelope list"
  calls :: "call list"

subsection \<open>Sending one log message\<close>

definition messagePriorityValue :: "LogMessage option \<Rightarrow> go_int" where
  "messagePriorityValue msg =
     (case GetMessageType msg of
        LogMessage_OUT \<Rightarrow> 14
      | LogMessage_ERR \<Rightarrow> 11
      | _ \<Rightarrow> - 1)"

datatype panic = NilPointerDereference | CloseOfClosedChannel

text \<open>
  \<open>sendLogMessage\<close> evaluates the arguments of \<open>Write\<close> first; dereferencing the
  timestamp of a nil log message, or a nil timestamp, panics before the call.
\<close>

definition sendLogMessage ::
  "'w Writer \<Rightarrow> LogMessage option \<Rightarrow> 'w RunState \<Rightarrow> panic + go_error \<times> 'w RunState" where
  "sendLogMessage W logMessage st =
     (case logMessage of
        None \<Rightarrow> Inl NilPointerDereference
      | Some m \<Rightarrow>
          (case Timestamp m of
             None \<Rightarrow> Inl NilPointerDereference
           | Some ts \<Rightarrow>
               (case Write W (messagePriorityValue logMessage) (GetMessage logMessage)
                       (GetSourceType logMessage) (GetSourceInstance logMessage) ts (writer st) of
                  ((n, err), w') \<Rightarrow>
                    Inr (err, st\<lparr>writer := w',
                                calls := calls st @
                                  [WriteCalled (messagePriorityValue logMessage)
                                     (GetMessage logMessage) (GetSourceType logMessage)
                                     (GetSourceInstance logMessage) ts err]\<rparr>))))"

subsection \<open>The run loop\<close>

text \<open>
  Each iteration of the loop of \<open>Run\<close> blocks in exactly one \<open>select\<close>: the backoff
  wait after a failed connect (disconnect signal or timer), or the wait for activity
  (disconnect signal or the buffer's output channel). A schedule says, for each
  iteration, which case of its \<open>select\<close> is taken. The lines written to the logger
  change nothing the sink does and are left out. The backoff strategy, made by
  \<open>retrystrategy.NewExponentialRetryStrategy\<close>, is a parameter.
\<close>

datatype chosen = DisconnectCase | OtherCase

datatype flow = Continue | FallThrough | Return | Panic

text \<open>Lines 82 to 104: the sink is not connected.\<close>

definition connectPhase ::
  "'w Writer \<Rightarrow> SyslogSink \<Rightarrow> (go_int \<Rightarrow> duration) \<Rightarrow> chosen \<Rightarrow> 'w RunState \<Rightarrow> flow \<times> 'w RunState" where
  "connectPhase W s backoffStrategy c st =
     (case Connect W (writer st) of
        (Some err, w') \<Rightarrow>
          (let sleepDuration = backoffStrategy (numberOfTries st);
               errorMsg = (drainUrl s, sleepDuration, err);
               st1 = st\<lparr>writer := w',
                        calls := calls st @
                          [ConnectCalled (Some err),
                           HandleSendError errorMsg (appId s) (drainUrl s),
                           TimerReset sleepDuration]\<rparr>
           in (case c of
                 DisconnectCase \<Rightarrow> (Return, st1)
               | OtherCase \<Rightarrow> (Continue, st1\<lparr>numberOfTries := numberOfTries st1 + 1\<rparr>)))
      | (None, w') \<Rightarrow>
          (FallThrough, st\<lparr>writer := w', connected := True,
                           calls := calls st @ [ConnectCalled None]\<rparr>))"

text \<open>
  Lines 108 to 129: waiting for activity. Receiving from the buffer's output channel
  when nothing is left is the closed channel.
\<close>

definition activityPhase :: "'w Writer \<Rightarrow> chosen \<Rightarrow> 'w RunState \<Rightarrow> flow \<times> 'w RunState" where
  "activityPhase W c st =
     (case c of
        DisconnectCase \<Rightarrow> (Return, st)
      | OtherCase \<Rightarrow>
          (case bufferOut st of
             [] \<Rightarrow> (Return, st)
           | messageEnvelope # rest \<Rightarrow>
               (let st1 = st\<lparr>bufferOut := rest\<rparr> in
                if GetEventType messageEnvelope = Envelope_LogMessage then
                  (case sendLogMessage W (GetLogMessage messageEnvelope) st1 of
                     Inl p \<Rightarrow> (Panic, st1)
                   | Inr (None, st2) \<Rightarrow>
                       (Continue, st2\<lparr>numberOfTries := 0, connected := True\<rparr>)
                   | Inr (Some err, st2) \<Rightarrow>
                       (Continue, st2\<lparr>numberOfTries := numberOfTries st2 + 1,
                                       connected := False\<rparr>))
                else (Continue, st1))))"

definition loopBody ::
  "'w Writer \<Rightarrow> SyslogSink \<Rightarrow> (go_int \<Rightarrow> duration) \<Rightarrow> chosen \<Rightarrow> 'w RunState \<Rightarrow> flow \<times> 'w RunState" where
  "loopBody W s backoffStrategy c st =
     (if \<not> connected st then
        (case connectPhase W s backoffStrategy c st of
           (FallThrough, st') \<Rightarrow> activityPhase W c st'
         | r \<Rightarrow> r)
      else activityPhase W c st)"

text \<open>The deferred \<open>syslogWriter.Close()\<close>, run when \<open>Run\<close> returns or panics.\<close>

definition deferred :: "'w Writer \<Rightarrow> 'w RunState \<Rightarrow> 'w RunState" where
  "deferred W st = st\<lparr>writer := Close W (writer st), calls := calls st @ [CloseCalled]\<rparr>"

datatype status = Running | Returned | Panicked

text \<open>
  The loop, for as many iterations as the schedule has entries. When the schedule ends
  first the sink is still running.
\<close>

fun RunLoop ::
  "'w Writer \<Rightarrow> SyslogSink \<Rightarrow> (go_int \<Rightarrow> duration) \<Rightarrow> chosen list \<Rightarrow> 'w RunState \<Rightarrow> status \<times> 'w RunState" where
  "RunLoop W s backoffStrategy [] st = (Running, st)"
| "RunLoop W s backoffStrategy (c # cs) st =
     (case loopBody W s backoffStrategy c st of
        (Return, st') \<Rightarrow> (Returned, deferred W st')
      | (Panic, st') \<Rightarrow> (Panicked, deferred W st')
      | (_, st') \<Rightarrow> RunLoop W s backoffStrategy cs st')"

text \<open>
  Lines 53 to 72: the filter goroutine. Its result is what it sends on \<open>filteredChan\<close>;
  its schedule says which case each of its \<open>select\<close>s takes.
\<close>

fun filterStage :: "chosen list \<Rightarrow> Envelope list \<Rightarrow> Envelope list" where
  "filterStage [] inputChan = []"
| "filterStage (DisconnectCase # cs) inputChan = []"
| "filterStage (OtherCase # cs) [] = []"
| "filterStage (OtherCase # cs) (v # rest) =
     (if GetEventType v \<noteq> Envelope_LogMessage then filterStage cs rest
      else v # filterStage cs rest)"

definition initialRunState :: "'w \<Rightarrow> Envelope list \<Rightarrow> 'w RunState" where
  "initialRunState w out =
     \<lparr>numberOfTries = 0, connected = False, writer = w, bufferOut = out, calls = []\<rparr>"

text \<open>
  \<open>Run\<close>. The truncating buffer (\<open>sinks.RunTruncatingBuffer\<close>) is a parameter: given
  the buffer size, the origin and the sink's identifier, a function from what the filter
  sends to what the buffer's output channel delivers.
\<close>

definition Run ::
  "'w Writer \<Rightarrow> SyslogSink \<Rightarrow> (go_int \<Rightarrow> duration) \<Rightarrow>
   (nat \<Rightarrow> string \<Rightarrow> string \<Rightarrow> Envelope list \<Rightarrow> Envelope list) \<Rightarrow>
   chosen list \<Rightarrow> chosen list \<Rightarrow> Envelope list \<Rightarrow> 'w \<Rightarrow> status \<times> 'w RunState" where
  "Run W s backoffStrategy RunTruncatingBuffer filterSchedule schedule inputChan w =
     RunLoop W s backoffStrategy schedule
       (initialRunState w
          (RunTruncatingBuffer (messageDrainBufferSize s) (dropsondeOrigin s) (Identifier s)
             (filterStage filterSchedule inputChan)))"

subsection \<open>Observing the calls\<close>

fun isCallback :: "call \<Rightarrow> bool" where
  "isCallback (HandleSendError msg app url) = True"
| "isCallback _ = False"

fun isFailedConnect :: "call \<Rightarrow> bool" where
  "isFailedConnect (ConnectCalled (Some err)) = True"
| "isFailedConnect _ = False"

fun isFailedWrite :: "call \<Rightarrow> bool" where
  "isFailedWrite (WriteCalled p b st si ts (Some err)) = True"
| "isFailedWrite _ = False"

fun isSuccessfulWrite :: "call \<Rightarrow> bool" where
  "isSuccessfulWrite (WriteCalled p b st si ts None) = True"
| "isSuccessfulWrite _ = False"

fun callbackFor :: "SyslogSink \<Rightarrow> call \<Rightarrow> bool" where
  "callbackFor s (HandleSendError msg app url) = (app = appId s \<and> url = drainUrl s)"
| "callbackFor s _ = False"

text \<open>The arguments of a \<open>Write\<close> call, and the arguments the sink passes for an envelope.\<close>

fun writeArgs :: "call \<Rightarrow> (go_int \<times> bytes \<times> string \<times> string \<times> int64) option" where
  "writeArgs (WriteCalled p b st si ts err) = Some (p, b, st, si, ts)"
| "writeArgs _ = None"

definition sendArgs :: "Envelope \<Rightarrow> (go_int \<times> bytes \<times> string \<times> string \<times> int64) option" where
  "sendArgs v =
     (case GetLogMessage v of
        None \<Rightarrow> None
      | Some m \<Rightarrow>
          (case Timestamp m of
             None \<Rightarrow> None
           | Some ts \<Rightarrow>
               Some (messagePriorityValue (Some m), Message m, SourceType m, SourceInstance m, ts)))"

definition isLogKind :: "Envelope \<Rightarrow> bool" where
  "isLogKind v = (GetEventType v = Envelope_LogMessage)"

definition writesOf :: "call list \<Rightarrow> (go_int \<times> bytes \<times> string \<times> string \<times> int64) list" where
  "writesOf cs = List.map_filter writeArgs cs"

text \<open>The items of the buffer's output that the loop has received so far.\<close>

definition consumed :: "Envelope list \<Rightarrow> 'w RunState \<Rightarrow> Envelope list" where
  "consumed out st = take (length out - length (bufferOut st)) out"

subsection \<open>Disconnect\<close>

text \<open>
  \<open>Disconnect\<close> closes the disconnect channel inside \<open>sync.Once.Do\<close>. Closing a closed
  channel panics in Go. \<open>Do\<close> runs its calls one at a time, so a call is one atomic step
  on the state below; \<open>closeCount\<close> counts the executions of \<open>close\<close>.
\<close>

record DisconnectState =
  disconnectOnceDone :: bool
  disconnectChannelClosed :: bool
  closeCount :: nat

definition NewDisconnectState :: DisconnectState where
  "NewDisconnectState =
     \<lparr>disconnectOnceDone = False, disconnectChannelClosed = False, closeCount = 0\<rparr>"

definition closeChannel :: "DisconnectState \<Rightarrow> panic + DisconnectState" where
  "closeChannel d =
     (if disconnectChannelClosed d then Inl CloseOfClosedChannel
      else Inr (d\<lparr>disconnectChannelClosed := True, closeCount := closeCount d + 1\<rparr>))"

definition Disconnect :: "DisconnectState \<Rightarrow> panic + DisconnectState" where
  "Disconnect d =
     (if disconnectOnceDone d then Inr d
      else (case closeChannel d of
              Inl p \<Rightarrow> Inl p
            | Inr d' \<Rightarrow> Inr (d'\<lparr>disconnectOnceDone := True\<rparr>)))"

fun DisconnectTimes :: "nat \<Rightarrow> DisconnectState \<Rightarrow> panic + DisconnectState" where
  "DisconnectTimes 0 d = Inr d"
| "DisconnectTimes (Suc n) d =
     (case Disconnect d of Inl p \<Rightarrow> Inl p | Inr d' \<Rightarrow> DisconnectTimes n d')"

section \<open>The overflow buffer\<close>

text \<open>
  Modelled from the spec: \<open>sinks.RunTruncatingBuffer\<close> and the buffer type it returns are
  not among the sources; only the call in \<open>Run\<close> is. A buffer item is a forwarded
  envelope or a synthetic notification that a number of messages were dropped.
\<close>

datatype 'a BufferItem = Forwarded 'a | DroppedNotification nat

text \<open>
  Modelled from the spec: the state of the Overflow Buffer, which is not among the
  sources: its configured capacity, the pending items, oldest first, and the number of
  items dropped since the last notification.
\<close>

record 'a OverflowBuffer =
  capacity :: nat
  pending :: "'a list"
  droppedCount :: nat

text \<open>Modelled from the spec: the buffer that \<open>Run(input, capacity)\<close> starts with, empty.\<close>

definition NewOverflowBuffer :: "nat \<Rightarrow> 'a OverflowBuffer" where
  "NewOverflowBuffer cap = \<lparr>capacity = cap, pending = [], droppedCount = 0\<rparr>"

text \<open>
  Modelled from the spec: the arrival of an item, the eviction policy of the missing
  buffer. When the buffer is full the oldest pending item is dropped to make room and
  the eviction is recorded. A buffer of capacity 0 can hold nothing, so the item itself
  is dropped.
\<close>

definition offer :: "'a \<Rightarrow> 'a OverflowBuffer \<Rightarrow> 'a OverflowBuffer" where
  "offer x b =
     (if capacity b = 0 then b\<lparr>droppedCount := droppedCount b + 1\<rparr>
      else if capacity b \<le> length (pending b)
        then b\<lparr>pending := tl (pending b) @ [x], droppedCount := droppedCount b + 1\<rparr>
      else b\<lparr>pending := pending b @ [x]\<rparr>)"

text \<open>
  Modelled from the spec: a drain by the consumer of the missing buffer's output. It
  delivers one notification with the number of items dropped since the last
  notification, when any were, and then the pending items in order.
\<close>

definition drain :: "'a OverflowBuffer \<Rightarrow> 'a BufferItem list \<times> 'a OverflowBuffer" where
  "drain b =
     ((if 0 < droppedCount b then [DroppedNotification (droppedCount b)] else []) @
        map Forwarded (pending b),
      b\<lparr>pending := [], droppedCount := 0\<rparr>)"

text \<open>
  Modelled from the spec: what happens to the missing buffer over time, a sequence of
  arrivals and drains.
\<close>

datatype 'a BufferOp = Offer 'a | Drain

text \<open>Modelled from the spec: one arrival or one drain at the missing buffer.\<close>

fun applyOp :: "'a BufferOp \<Rightarrow> 'a OverflowBuffer \<Rightarrow> 'a OverflowBuffer" where
  "applyOp (Offer x) b = offer x b"
| "applyOp Drain b = snd (drain b)"

text \<open>Modelled from the spec: a sequence of arrivals and drains at the missing buffer.\<close>

definition runOps :: "'a BufferOp list \<Rightarrow> 'a OverflowBuffer \<Rightarrow> 'a OverflowBuffer" where
  "runOps ops b = fold applyOp ops b"

text \<open>The forwarded items and the notifications among what a drain delivers.\<close>

fun forwardedItems :: "'a BufferItem list \<Rightarrow> 'a list" where
  "forwardedItems [] = []"
| "forwardedItems (Forwarded x # xs) = x # forwardedItems xs"
| "forwardedItems (DroppedNotification n # xs) = forwardedItems xs"

fun notifications :: "'a BufferItem list \<Rightarrow> nat list" where
  "notifications [] = []"
| "notifications (Forwarded x # xs) = notifications xs"
| "notifications (DroppedNotification n # xs) = n # notifications xs"

text \<open>
  Modelled from the spec: the items of the missing buffer as the sink sees them. A
  notification is an envelope tagged with a non-log event kind.
\<close>

fun toEnvelope :: "Envelope BufferItem \<Rightarrow> Envelope" where
  "toEnvelope (Forwarded v) = v"
| "toEnvelope (DroppedNotification n) =
     \<lparr>EventType = Envelope_CounterEvent, LogMessageField = None\<rparr>"

text \<open>
  Modelled from the spec: the missing buffer with a stalled consumer, as a function from
  what the filter sends to what is delivered once drained.
\<close>

definition stalledOverflowBuffer :: "nat \<Rightarrow> string \<Rightarrow> string \<Rightarrow> Envelope list \<Rightarrow> Envelope list" where
  "stalledOverflowBuffer cap origin ident xs =
     map toEnvelope (fst (drain (runOps (map Offer xs) (NewOverflowBuffer cap))))"

section \<open>The event listener (metron/eventlistener/event\_listener.go)\<close>

subsection \<open>Byte slices in a heap\<close>

text \<open>
  The listener reads every datagram into one scratch buffer and publishes slices. What
  it publishes is a reference, so byte arrays live in a heap: an address is an index
  of the list, \<open>make([]byte, n)\<close> allocates a zeroed array at the next address, and a
  slice names its array and its length. A slice always names an allocated array, as in
  Go.
\<close>

type_synonym heap = "bytes list"

record Slice =
  array :: nat
  len :: nat

definition makeBytes :: "nat \<Rightarrow> heap \<Rightarrow> Slice \<times> heap" where
  "makeBytes n h = (\<lparr>array = length h, len = n\<rparr>, h @ [replicate n 0])"

text \<open>\<open>b[:n]\<close>, for \<open>n\<close> within the slice.\<close>

definition upTo :: "Slice \<Rightarrow> nat \<Rightarrow> Slice" where
  "upTo b n = b\<lparr>len := n\<rparr>"

text \<open>\<open>copy(dst, src)\<close> copies as many bytes as the shorter slice has.\<close>

definition copy :: "Slice \<Rightarrow> Slice \<Rightarrow> heap \<Rightarrow> heap" where
  "copy dst src h =
     (let n = min (len dst) (len src)
      in h[array dst := take n (h ! array src) @ drop n (h ! array dst)])"

text \<open>
  What \<open>connection.ReadFrom\<close> returns next: a datagram, with its payload and the address
  of its sender, or an error. A datagram longer than the buffer is cut to the buffer.
\<close>

datatype ReadResult = Datagram bytes string | ReadError string

definition ReadFrom :: "bytes \<Rightarrow> Slice \<Rightarrow> heap \<Rightarrow> nat \<times> heap" where
  "ReadFrom payload b h =
     (let n = min (length payload) (len b)
      in (n, h[array b := take n payload @ drop n (h ! array b)]))"

subsection \<open>The listener\<close>

record PacketConn =
  localAddr :: string
  closed :: bool

record EventListener =
  host :: string
  dataChannel :: "Slice list"
  dataChannelClosed :: bool
  connection :: "PacketConn option"
  receivedMessageCount :: uint64
  receivedByteCount :: uint64
  contextName :: string

definition New :: "string \<Rightarrow> string \<Rightarrow> EventListener" where
  "New h name =
     \<lparr>host = h, dataChannel = [], dataChannelClosed = False, connection = None,
      receivedMessageCount = 0, receivedByteCount = 0, contextName = name\<rparr>"

text \<open>The capacity of the channel made by \<open>New\<close>.\<close>

definition dataChannelCapacity :: nat where
  "dataChannelCapacity = 1024"

text \<open>
  The heartbeat requester is an interface. \<open>KnownAndReset\<close> is a function on a state
  \<open>'r\<close> of the requester; \<open>Start\<close> is run in a goroutine of its own, so the listener
  only records that it started one. The world of a running listener is the listener, the
  heap, the requester, and the record of the calls made to the requester.
\<close>

record 'r World =
  listener :: EventListener
  heap :: heap
  requester :: 'r
  knownAndResetCalls :: "(string \<times> bool) list"
  startCalls :: "string list"

datatype listenerStatus = Reading | BlockedOnSend | Ended

text \<open>
  Lines 56 to 65: one datagram, read into the read buffer. A send on the full channel
  blocks: nothing in this model receives from the channel, so the loop stays there.
\<close>

definition receiveDatagram ::
  "('r \<Rightarrow> string \<Rightarrow> bool \<times> 'r) \<Rightarrow> Slice \<Rightarrow> bytes \<Rightarrow> string \<Rightarrow> 'r World \<Rightarrow> listenerStatus \<times> 'r World" where
  "receiveDatagram KnownAndReset readBuffer payload senderAddr w =
     (case ReadFrom payload readBuffer (heap w) of
        (readCount, h1) \<Rightarrow>
          (case makeBytes readCount h1 of
             (readData, h2) \<Rightarrow>
               (let h3 = copy readData (upTo readBuffer readCount) h2;
                    l1 = (listener w)
                           \<lparr>receivedMessageCount := receivedMessageCount (listener w) + 1,
                            receivedByteCount :=
                              receivedByteCount (listener w) + of_nat readCount\<rparr>
                in if dataChannelCapacity \<le> length (dataChannel l1)
                   then (BlockedOnSend, w\<lparr>listener := l1, heap := h3\<rparr>)
                   else
                     (let l2 = l1\<lparr>dataChannel := dataChannel l1 @ [readData]\<rparr>
                      in (case KnownAndReset (requester w) senderAddr of
                            (known, r') \<Rightarrow>
                              (Reading,
                               w\<lparr>listener := l2, heap := h3, requester := r',
                                 knownAndResetCalls :=
                                   knownAndResetCalls w @ [(senderAddr, known)],
                                 startCalls :=
                                   (if \<not> known then startCalls w @ [senderAddr]
                                    else startCalls w)\<rparr>))))))"

text \<open>
  Lines 50 to 66, for the reads given: the loop ends at the first read error, closing
  the channel; when the reads end first it is waiting in \<open>ReadFrom\<close>.
\<close>

fun readLoop ::
  "('r \<Rightarrow> string \<Rightarrow> bool \<times> 'r) \<Rightarrow> Slice \<Rightarrow> ReadResult list \<Rightarrow> 'r World \<Rightarrow> listenerStatus \<times> 'r World" where
  "readLoop KnownAndReset readBuffer [] w = (Reading, w)"
| "readLoop KnownAndReset readBuffer (ReadError err # rs) w =
     (Ended, w\<lparr>listener := (listener w)\<lparr>dataChannelClosed := True\<rparr>\<rparr>)"
| "readLoop KnownAndReset readBuffer (Datagram payload senderAddr # rs) w =
     (case receiveDatagram KnownAndReset readBuffer payload senderAddr w of
        (Reading, w') \<Rightarrow> readLoop KnownAndReset readBuffer rs w'
      | blocked \<Rightarrow> blocked)"

datatype fatal = FailedToListen string

text \<open>
  \<open>Start\<close>: \<open>net.ListenPacket\<close> fails, and the logger's \<open>Fatalf\<close> ends the call, or
  gives the connection, which is stored in the listener before the loop. The lock around
  the assignment makes it one step; the size of the socket's receive buffer plays no
  part here.
\<close>

definition Start ::
  "('r \<Rightarrow> string \<Rightarrow> bool \<times> 'r) \<Rightarrow> string + PacketConn \<Rightarrow> ReadResult list \<Rightarrow> 'r World \<Rightarrow>
   fatal + listenerStatus \<times> 'r World" where
  "Start KnownAndReset listenPacket reads w =
     (case listenPacket of
        Inl err \<Rightarrow> Inl (FailedToListen err)
      | Inr conn \<Rightarrow>
          (let w1 = w\<lparr>listener := (listener w)\<lparr>connection := Some conn\<rparr>\<rparr>
           in (case makeBytes 65535 (heap w1) of
                 (readBuffer, h) \<Rightarrow>
                   Inr (readLoop KnownAndReset readBuffer reads (w1\<lparr>heap := h\<rparr>)))))"

text \<open>\<open>Stop\<close> calls \<open>Close\<close> on the stored connection, which is nil until \<open>Start\<close> stores one.\<close>

definition Stop :: "EventListener \<Rightarrow> panic + EventListener" where
  "Stop l =
     (case connection l of
        None \<Rightarrow> Inl NilPointerDereference
      | Some c \<Rightarrow> Inr (l\<lparr>connection := Some (c\<lparr>closed := True\<rparr>)\<rparr>))"

definition NewWorld :: "string \<Rightarrow> string \<Rightarrow> 'r \<Rightarrow> heap \<Rightarrow> 'r World" where
  "NewWorld h name r hp =
     \<lparr>listener = New h name, heap = hp, requester = r, knownAndResetCalls = [],
      startCalls = []\<rparr>"

text \<open>The bytes a published slice holds, and the answers a requester gives.\<close>

definition payloadOf :: "heap \<Rightarrow> Slice \<Rightarrow> bytes" where
  "payloadOf h sl = take (len sl) (h ! array sl)"

text \<open>
  The published slices keep apart: each names an allocated array of exactly its
  length, none names the read buffer's array, and no two name the same array.
\<close>

definition publishedApart :: "Slice \<Rightarrow> 'r World \<Rightarrow> bool" where
  "publishedApart readBuffer w =
     (array readBuffer < length (heap w) \<and>
      length (heap w ! array readBuffer) = len readBuffer \<and>
      list_all (\<lambda>sl. array sl < length (heap w) \<and> array sl \<noteq> array readBuffer \<and>
                      length (heap w ! array sl) = len sl)
        (dataChannel (listener w)) \<and>
      distinct (map array (dataChannel (listener w))))"

fun answers :: "('r \<Rightarrow> string \<Rightarrow> bool \<times> 'r) \<Rightarrow> 'r \<Rightarrow> string list \<Rightarrow> (string \<times> bool) list" where
  "answers KnownAndReset r [] = []"
| "answers KnownAndReset r (a # as) =
     (case KnownAndReset r a of (known, r') \<Rightarrow> (a, known) # answers KnownAndReset r' as)"

fun isDatagram :: "ReadResult \<Rightarrow> bool" where
  "isDatagram (Datagram payload senderAddr) = True"
| "isDatagram (ReadError err) = False"

fun payload :: "ReadResult \<Rightarrow> bytes" where
  "payload (Datagram p senderAddr) = p"
| "payload (ReadError err) = []"

fun sender :: "ReadResult \<Rightarrow> string" where
  "sender (Datagram p senderAddr) = senderAddr"
| "sender (ReadError err) = []"

section \<open>Concrete collaborators and inputs\<close>

text \<open>A sink for one application and one drain, and a backoff of one millisecond per try.\<close>

definition exampleSink :: SyslogSink where
  "exampleSink =
     \<lparr>appId = ''app-1'', drainUrl = ''syslog://drain.example:514'',
      messageDrainBufferSize = 2, dropsondeOrigin = ''doppler''\<rparr>"

definition linearBackoff :: "go_int \<Rightarrow> duration" where
  "linearBackoff tries = 1000000 * (tries + 1)"

text \<open>A writer that connects and whose every write fails.\<close>

definition brokenPipeWriter :: "unit Writer" where
  "brokenPipeWriter =
     \<lparr>Connect = (\<lambda>w. (None, w)),
      Write = (\<lambda>p b st si ts w. ((0, Some ''broken pipe''), w)),
      Close = (\<lambda>w. w)\<rparr>"

text \<open>
  A writer whose first two connects are refused; its state counts the connects. Its
  writes succeed.
\<close>

definition flakyWriter :: "nat Writer" where
  "flakyWriter =
     \<lparr>Connect = (\<lambda>w. (if w < 2 then Some ''connection refused'' else None, w + 1)),
      Write = (\<lambda>p b st si ts w. ((of_nat (length b), None), w)),
      Close = (\<lambda>w. w)\<rparr>"

definition outMessage :: LogMessage where
  "outMessage =
     \<lparr>Message = [104, 105], MessageType = LogMessage_OUT, Timestamp = Some 1000,
      SourceType = ''App'', SourceInstance = ''0''\<rparr>"

definition logEnvelope :: Envelope where
  "logEnvelope = \<lparr>EventType = Envelope_LogMessage, LogMessageField = Some outMessage\<rparr>"

definition metricEnvelope :: Envelope where
  "metricEnvelope = \<lparr>EventType = Envelope_ValueMetric, LogMessageField = None\<rparr>"

text \<open>
  A requester that knows the addresses it has been asked about: its state is the list
  of them.
\<close>

definition rememberingRequester :: "string list \<Rightarrow> string \<Rightarrow> bool \<times> string list" where
  "rememberingRequester known a = (a \<in> set known, a # known)"

definition loopbackConn :: PacketConn where
  "loopbackConn = \<lparr>localAddr = ''127.0.0.1:3457'', closed = False\<rparr>"

section \<open>Properties of the syslog sink\<close>

subsection \<open>One iteration of the loop\<close>

lemma connectPhase_failed:
  assumes "Connect W (writer st) = (Some err, w')"
  shows "connectPhase W s bo DisconnectCase st =
           (Return, st\<lparr>writer := w', calls := calls st @ [ConnectCalled (Some err),
               HandleSendError (drainUrl s, bo (numberOfTries st), err) (appId s) (drainUrl s),
               TimerReset (bo (numberOfTries st))]\<rparr>)"
    and "connectPhase W s bo OtherCase st =
           (Continue, st\<lparr>writer := w', calls := calls st @ [ConnectCalled (Some err),
               HandleSendError (drainUrl s, bo (numberOfTries st), err) (appId s) (drainUrl s),
               TimerReset (bo (numberOfTries st))], numberOfTries := numberOfTries st + 1\<rparr>)"
  using assms by (simp_all add: connectPhase_def Let_def)

lemma connectPhase_succeeded:
  assumes "Connect W (writer st) = (None, w')"
  shows "connectPhase W s bo c st =
           (FallThrough, st\<lparr>writer := w', connected := True, calls := calls st @ [ConnectCalled None]\<rparr>)"
  using assms by (simp add: connectPhase_def)

lemma loopBody_cases:
  assumes "loopBody W s bo c st = (f, st')"
  obtains (connected) "connected st" "activityPhase W c st = (f, st')"
  | (refused_disconnect) err w' where "\<not> connected st" "Connect W (writer st) = (Some err, w')"
      "c = DisconnectCase" "f = Return"
      "st' = st\<lparr>writer := w', calls := calls st @ [ConnectCalled (Some err),
               HandleSendError (drainUrl s, bo (numberOfTries st), err) (appId s) (drainUrl s),
               TimerReset (bo (numberOfTries st))]\<rparr>"
  | (refused_timer) err w' where "\<not> connected st" "Connect W (writer st) = (Some err, w')"
      "c = OtherCase" "f = Continue"
      "st' = st\<lparr>writer := w', calls := calls st @ [ConnectCalled (Some err),
               HandleSendError (drainUrl s, bo (numberOfTries st), err) (appId s) (drainUrl s),
               TimerReset (bo (numberOfTries st))], numberOfTries := numberOfTries st + 1\<rparr>"
  | (accepted) w' where "\<not> connected st" "Connect W (writer st) = (None, w')"
      "activityPhase W c (st\<lparr>writer := w', connected := True, calls := calls st @ [ConnectCalled None]\<rparr>) = (f, st')"
proof (cases "connected st")
  case True
  then show ?thesis using assms connected by (simp add: loopBody_def)
next
  case False
  obtain e w' where C: "Connect W (writer st) = (e, w')" by (cases "Connect W (writer st)")
  show ?thesis
  proof (cases e)
    case None
    then show ?thesis
      using assms False C accepted [of w'] connectPhase_succeeded [of W st w' s bo c]
      by (simp add: loopBody_def)
  next
    case (Some err)
    show ?thesis
    proof (cases c)
      case DisconnectCase
      then show ?thesis
        using assms False C Some refused_disconnect [of err w'] connectPhase_failed(1) [of W st err w' s bo]
        by (simp add: loopBody_def)
    next
      case OtherCase
      then show ?thesis
        using assms False C Some refused_timer [of err w'] connectPhase_failed(2) [of W st err w' s bo]
        by (simp add: loopBody_def)
    qed
  qed
qed

lemma activityPhase_cases:
  assumes "activityPhase W c st = (f, st')"
  shows "(f = Return \<and> st' = st \<and> (c = DisconnectCase \<or> bufferOut st = []))
       \<or> (\<exists>v rest. c = OtherCase \<and> bufferOut st = v # rest \<and> bufferOut st' = rest \<and>
            (\<not> isLogKind v \<and> f = Continue \<and> calls st' = calls st \<and> numberOfTries st' = numberOfTries st \<and> connected st' = connected st \<and> writer st' = writer st
             \<or> isLogKind v \<and> sendArgs v = None \<and> f = Panic \<and> calls st' = calls st \<and> numberOfTries st' = numberOfTries st \<and> connected st' = connected st \<and> writer st' = writer st
             \<or> (\<exists>p b sty si ts err. isLogKind v \<and> sendArgs v = Some (p, b, sty, si, ts) \<and> f = Continue \<and>
                  calls st' = calls st @ [WriteCalled p b sty si ts err] \<and>
                  snd (fst (Write W p b sty si ts (writer st))) = err \<and>
                  writer st' = snd (Write W p b sty si ts (writer st)) \<and>
                  (err = None \<and> numberOfTries st' = 0 \<and> connected st'
                   \<or> err \<noteq> None \<and> numberOfTries st' = numberOfTries st + 1 \<and> \<not> connected st'))))"
  using assms
  by (auto simp: activityPhase_def sendLogMessage_def sendArgs_def isLogKind_def Let_def
        GetMessage_def GetSourceType_def GetSourceInstance_def
      split: prod.splits option.splits chosen.splits list.splits if_splits sum.splits)

lemma refused_step:
  assumes "\<not> connected st" "Connect W (writer st) = (Some err, w')"
  shows "loopBody W s bo OtherCase st =
     (Continue, st\<lparr>writer := w', calls := calls st @ [ConnectCalled (Some err),
               HandleSendError (drainUrl s, bo (numberOfTries st), err) (appId s) (drainUrl s),
               TimerReset (bo (numberOfTries st))], numberOfTries := numberOfTries st + 1\<rparr>)"
  using assms connectPhase_failed(2) [OF assms(2), of s bo] by (simp add: loopBody_def)

lemma accepted_step:
  assumes "\<not> connected st" "Connect W (writer st) = (None, w')"
  shows "loopBody W s bo c st =
     loopBody W s bo c (st\<lparr>writer := w', connected := True, calls := calls st @ [ConnectCalled None]\<rparr>)"
  using assms connectPhase_succeeded [OF assms(2), of s bo c] by (simp add: loopBody_def)

lemma nonlog_step:
  assumes "connected st" "bufferOut st = v # rest" "\<not> isLogKind v"
  shows "loopBody W s bo OtherCase st = (Continue, st\<lparr>bufferOut := rest\<rparr>)"
  using assms by (simp add: loopBody_def activityPhase_def isLogKind_def)

lemma failed_write_step:
  assumes "connected st" "bufferOut st = v # rest" "isLogKind v" "sendArgs v = Some (p, b, sty, si, ts)"
     "Write W p b sty si ts (writer st) = ((n, Some err), w')"
  shows "loopBody W s bo OtherCase st =
     (Continue, st\<lparr>bufferOut := rest, writer := w', calls := calls st @ [WriteCalled p b sty si ts (Some err)],
         numberOfTries := numberOfTries st + 1, connected := False\<rparr>)"
  using assms
  by (auto simp: loopBody_def activityPhase_def sendLogMessage_def sendArgs_def isLogKind_def Let_def
        GetMessage_def GetSourceType_def GetSourceInstance_def
      split: prod.splits option.splits chosen.splits list.splits if_splits sum.splits)

lemma successful_write_step:
  assumes "connected st" "bufferOut st = v # rest" "isLogKind v" "sendArgs v = Some (p, b, sty, si, ts)"
     "Write W p b sty si ts (writer st) = ((n, None), w')"
  shows "loopBody W s bo OtherCase st =
     (Continue, st\<lparr>bufferOut := rest, writer := w', calls := calls st @ [WriteCalled p b sty si ts None],
         numberOfTries := 0, connected := True\<rparr>)"
  using assms
  by (auto simp: loopBody_def activityPhase_def sendLogMessage_def sendArgs_def isLogKind_def Let_def
        GetMessage_def GetSourceType_def GetSourceInstance_def
      split: prod.splits option.splits chosen.splits list.splits if_splits sum.splits)

subsection \<open>The whole loop\<close>

lemma RunLoop_invariant:
  assumes step: "\<And>c st f st'. I st \<Longrightarrow> loopBody W s bo c st = (f, st') \<Longrightarrow> I st'"
    and fin: "\<And>st. I st \<Longrightarrow> I (deferred W st)"
    and init: "I st"
  shows "I (snd (RunLoop W s bo cs st))"
  using init
proof (induction cs arbitrary: st)
  case Nil
  then show ?case by simp
next
  case (Cons c cs)
  obtain f st' where b: "loopBody W s bo c st = (f, st')" by (cases "loopBody W s bo c st")
  have I': "I st'" using step [OF Cons.prems b] .
  show ?case
  proof (cases f)
    case Continue
    then show ?thesis using b Cons.IH [OF I'] by simp
  next
    case FallThrough
    then show ?thesis using b Cons.IH [OF I'] by simp
  next
    case Return
    then show ?thesis using b fin [OF I'] by simp
  next
    case Panic
    then show ?thesis using b fin [OF I'] by simp
  qed
qed

lemma RunLoop_append:
  "RunLoop W s bo (cs1 @ cs2) st =
     (case RunLoop W s bo cs1 st of (Running, st') \<Rightarrow> RunLoop W s bo cs2 st' | r \<Rightarrow> r)"
proof (induction cs1 arbitrary: st)
  case Nil
  then show ?case by simp
next
  case (Cons c cs1)
  obtain f st' where b: "loopBody W s bo c st = (f, st')" by (cases "loopBody W s bo c st")
  show ?case using b Cons.IH [of st'] by (cases f) simp_all
qed

lemma skip_nonlog:
  "connected st \<Longrightarrow> bufferOut st = ns @ rest \<Longrightarrow> \<forall>v \<in> set ns. \<not> isLogKind v \<Longrightarrow>
   RunLoop W s bo (replicate (length ns) OtherCase) st = (Running, st\<lparr>bufferOut := rest\<rparr>)"
proof (induction ns arbitrary: st)
  case Nil
  then show ?case by simp
next
  case (Cons v ns)
  have b: "loopBody W s bo OtherCase st = (Continue, st\<lparr>bufferOut := ns @ rest\<rparr>)"
    using Cons.prems nonlog_step [of st v "ns @ rest" W s bo] by simp
  show ?case using b Cons.IH [of "st\<lparr>bufferOut := ns @ rest\<rparr>"] Cons.prems by simp
qed

lemma loopBody_callbacks:
  assumes "loopBody W s bo c st = (f, st')"
  shows "\<exists>new. calls st' = calls st @ new \<and> length (filter isCallback new) = length (filter isFailedConnect new)
     \<and> (\<forall>x \<in> set new. isCallback x \<longrightarrow> callbackFor s x)"
  using assms
proof (cases rule: loopBody_cases)
  case connected
  from activityPhase_cases [OF connected(2)] show ?thesis by auto
next
  case (refused_disconnect err w')
  then show ?thesis by simp
next
  case (refused_timer err w')
  then show ?thesis by simp
next
  case (accepted w')
  from activityPhase_cases [OF accepted(3)] show ?thesis by auto
qed

lemma loopBody_tries:
  assumes "loopBody W s bo c st = (f, st')"
  shows "numberOfTries st' =
     (if list_ex isSuccessfulWrite (drop (length (calls st)) (calls st')) then 0
      else if (list_ex isFailedConnect (drop (length (calls st)) (calls st')) \<and> f = Continue)
              \<or> list_ex isFailedWrite (drop (length (calls st)) (calls st'))
        then numberOfTries st + 1
      else numberOfTries st)"
  using assms
proof (cases rule: loopBody_cases)
  case connected
  from activityPhase_cases [OF connected(2)] show ?thesis by auto
next
  case (refused_disconnect err w')
  then show ?thesis by simp
next
  case (refused_timer err w')
  then show ?thesis by simp
next
  case (accepted w')
  from activityPhase_cases [OF accepted(3)] show ?thesis by auto
qed

lemma writesOf_append: "writesOf (xs @ ys) = writesOf xs @ writesOf ys"
  by (simp add: writesOf_def map_filter_def)

lemma activityPhase_writes:
  assumes "activityPhase W c st = (f, st')"
  shows "\<exists>taken. bufferOut st = taken @ bufferOut st' \<and>
           writesOf (calls st') = writesOf (calls st) @ List.map_filter sendArgs (filter isLogKind taken)"
  using activityPhase_cases [OF assms]
proof (elim disjE exE conjE)
  assume "st' = st"
  then show ?thesis by simp
next
  assume "st' = st"
  then show ?thesis by simp
next
  fix v rest
  assume "bufferOut st = v # rest" "bufferOut st' = rest" "\<not> isLogKind v" "calls st' = calls st"
  then show ?thesis by (intro exI [of _ "[v]"]) (simp add: map_filter_def)
next
  fix v rest
  assume "bufferOut st = v # rest" "bufferOut st' = rest" "sendArgs v = None" "calls st' = calls st"
  then show ?thesis by (intro exI [of _ "[v]"]) (simp add: map_filter_def)
next
  fix v rest p b sty si ts err
  assume "bufferOut st = v # rest" "bufferOut st' = rest" "isLogKind v" "sendArgs v = Some (p, b, sty, si, ts)"
    "calls st' = calls st @ [WriteCalled p b sty si ts err]"
  then show ?thesis by (intro exI [of _ "[v]"]) (simp add: map_filter_def writesOf_def)
next
  fix v rest p b sty si ts err
  assume "bufferOut st = v # rest" "bufferOut st' = rest" "isLogKind v" "sendArgs v = Some (p, b, sty, si, ts)"
    "calls st' = calls st @ [WriteCalled p b sty si ts err]"
  then show ?thesis by (intro exI [of _ "[v]"]) (simp add: map_filter_def writesOf_def)
qed

lemma loopBody_writes:
  assumes "loopBody W s bo c st = (f, st')"
  shows "\<exists>taken. bufferOut st = taken @ bufferOut st' \<and>
           writesOf (calls st') = writesOf (calls st) @ List.map_filter sendArgs (filter isLogKind taken)"
  using assms
proof (cases rule: loopBody_cases)
  case connected
  from activityPhase_writes [OF connected(2)] show ?thesis .
next
  case (refused_disconnect err w')
  then show ?thesis by (simp add: writesOf_def map_filter_def)
next
  case (refused_timer err w')
  then show ?thesis by (simp add: writesOf_def map_filter_def)
next
  case (accepted w')
  from activityPhase_writes [OF accepted(3)] show ?thesis by (simp add: writesOf_def map_filter_def)
qed

lemma consumed_prefix:
  fixes fin :: "'w RunState"
  assumes pre: "out = pre @ bufferOut fin"
  shows "consumed out fin = pre"
proof -
  have "length out = length pre + length (bufferOut fin)"
    using arg_cong [OF pre, of length] by simp
  then have "take (length out - length (bufferOut fin)) out = take (length pre) (pre @ bufferOut fin)"
    using pre by simp
  then show ?thesis by (simp add: consumed_def)
qed

lemma writes_accounted_step:
  fixes st st' :: "'w RunState"
  assumes "\<exists>pre. out = pre @ bufferOut st \<and>
              writesOf (calls st) = List.map_filter sendArgs (filter isLogKind pre)"
    and b: "loopBody W s bo c st = (f, st')"
  shows "\<exists>pre. out = pre @ bufferOut st' \<and>
              writesOf (calls st') = List.map_filter sendArgs (filter isLogKind pre)"
proof -
  from assms(1) obtain pre where pre: "out = pre @ bufferOut st"
      "writesOf (calls st) = List.map_filter sendArgs (filter isLogKind pre)" by blast
  from loopBody_writes [OF b] obtain taken where t: "bufferOut st = taken @ bufferOut st'"
      "writesOf (calls st') = writesOf (calls st) @ List.map_filter sendArgs (filter isLogKind taken)" by blast
  have "out = (pre @ taken) @ bufferOut st' \<and>
              writesOf (calls st') = List.map_filter sendArgs (filter isLogKind (pre @ taken))"
    using pre t by (simp add: map_filter_def)
  then show ?thesis by (rule exI)
qed

lemma writes_accounted_deferred:
  fixes st :: "'w RunState"
  assumes "\<exists>pre. out = pre @ bufferOut st \<and>
              writesOf (calls st) = List.map_filter sendArgs (filter isLogKind pre)"
  shows "\<exists>pre. out = pre @ bufferOut (deferred W st) \<and>
              writesOf (calls (deferred W st)) = List.map_filter sendArgs (filter isLogKind pre)"
  using assms by (simp add: deferred_def writesOf_append) (simp add: writesOf_def map_filter_def)

lemma writes_accounted_initial:
  "\<exists>pre. out = pre @ bufferOut (initialRunState w out) \<and>
      writesOf (calls (initialRunState w out)) = List.map_filter sendArgs (filter isLogKind pre)"
  by (rule exI [of _ "[]"]) (simp add: initialRunState_def writesOf_def map_filter_def)

lemma writes_are_consumed_log_envelopes:
  fixes W :: "'w Writer"
  shows "writesOf (calls (snd (RunLoop W s bo cs (initialRunState w out)))) =
     List.map_filter sendArgs (filter isLogKind (consumed out (snd (RunLoop W s bo cs (initialRunState w out)))))"
proof -
  define fin where "fin = snd (RunLoop W s bo cs (initialRunState w out))"
  have "\<exists>pre. out = pre @ bufferOut (snd (RunLoop W s bo cs (initialRunState w out))) \<and>
      writesOf (calls (snd (RunLoop W s bo cs (initialRunState w out)))) =
        List.map_filter sendArgs (filter isLogKind pre)"
    by (rule RunLoop_invariant
          [where I = "\<lambda>st. \<exists>pre. out = pre @ bufferOut st \<and>
              writesOf (calls st) = List.map_filter sendArgs (filter isLogKind pre)"])
       (erule writes_accounted_step, assumption, erule writes_accounted_deferred,
        rule writes_accounted_initial)
  then obtain pre where pre: "out = pre @ bufferOut fin"
      "writesOf (calls fin) = List.map_filter sendArgs (filter isLogKind pre)"
    unfolding fin_def by blast
  show ?thesis
    unfolding fin_def [symmetric] consumed_prefix [OF pre(1)] pre(2) by (rule refl)
qed

lemma filterStage_Cons:
  "filterStage (OtherCase # cs) (v # rest) =
     (if isLogKind v then v # filterStage cs rest else filterStage cs rest)"
  by (simp add: isLogKind_def)

lemma filterStage_logKind: "v \<in> set (filterStage fs inputChan) \<Longrightarrow> isLogKind v"
proof (induction fs inputChan rule: filterStage.induct)
  case (4 cs x rest)
  show ?case
  proof (cases "isLogKind x")
    case True
    then show ?thesis using 4 by (auto simp: filterStage_Cons isLogKind_def simp del: filterStage.simps)
  next
    case False
    then show ?thesis using 4 by (auto simp: filterStage_Cons isLogKind_def simp del: filterStage.simps)
  qed
qed simp_all

lemma filterStage_subseq: "subseq (filterStage fs inputChan) (filter isLogKind inputChan)"
  by (induction fs inputChan rule: filterStage.induct) (simp_all add: isLogKind_def)

lemma filterStage_nothing: "\<forall>v \<in> set inputChan. \<not> isLogKind v \<Longrightarrow> filterStage fs inputChan = []"
  by (induction fs inputChan rule: filterStage.induct) (auto simp: isLogKind_def)


subsection \<open>Claims about the sink\<close>

text \<open>
  Claim C9. When the sink sends a log envelope, \<open>Write\<close> is called once, with the
  priority that the message type alone decides (14 for OUT, 11 for ERR, the signed
  value -1 for any other type) and with the message bytes, source type, source
  instance and timestamp of that envelope.
\<close>

theorem write_priority_and_fields:
  assumes "GetEventType v = Envelope_LogMessage" and "GetLogMessage v = Some m"
    and "Timestamp m = Some ts" and "bufferOut st = v # rest"
  shows "(\<exists>err. calls (snd (activityPhase W OtherCase st)) =
            calls st @
            [WriteCalled
               (case MessageType m of
                  LogMessage_OUT \<Rightarrow> 14 | LogMessage_ERR \<Rightarrow> 11 | LogMessage_Other \<Rightarrow> - 1)
               (Message m) (SourceType m) (SourceInstance m) ts err]) \<and>
         sint (messagePriorityValue (Some m)) =
           (case MessageType m of
              LogMessage_OUT \<Rightarrow> 14 | LogMessage_ERR \<Rightarrow> 11 | LogMessage_Other \<Rightarrow> - 1)"
proof
  show "\<exists>err. calls (snd (activityPhase W OtherCase st)) =
            calls st @
            [WriteCalled
               (case MessageType m of
                  LogMessage_OUT \<Rightarrow> 14 | LogMessage_ERR \<Rightarrow> 11 | LogMessage_Other \<Rightarrow> - 1)
               (Message m) (SourceType m) (SourceInstance m) ts err]"
    using assms
    by (auto simp: activityPhase_def sendLogMessage_def messagePriorityValue_def
          GetMessageType_def GetMessage_def GetSourceType_def GetSourceInstance_def Let_def
        split: prod.splits option.splits LogMessage_MessageType.splits)
  show "sint (messagePriorityValue (Some m)) =
           (case MessageType m of
              LogMessage_OUT \<Rightarrow> 14 | LogMessage_ERR \<Rightarrow> 11 | LogMessage_Other \<Rightarrow> - 1)"
    by (simp add: messagePriorityValue_def GetMessageType_def
        split: LogMessage_MessageType.splits)
qed

theorem write_priority_and_fields_witness:
  "GetEventType logEnvelope = Envelope_LogMessage \<and>
   GetLogMessage logEnvelope = Some outMessage \<and>
   Timestamp outMessage = Some 1000 \<and>
   bufferOut (initialRunState 2 [logEnvelope]) = [logEnvelope] \<and>
   (\<exists>err. calls (snd (activityPhase flakyWriter OtherCase (initialRunState 2 [logEnvelope]))) =
      [WriteCalled 14 [104, 105] ''App'' ''0'' 1000 err]) \<and>
   sint (messagePriorityValue (Some outMessage)) = 14"
proof -
  have h: "GetEventType logEnvelope = Envelope_LogMessage"
    "GetLogMessage logEnvelope = Some outMessage"
    "Timestamp outMessage = Some 1000"
    "bufferOut (initialRunState 2 [logEnvelope]) = [logEnvelope]"
    by (simp_all add: GetEventType_def GetLogMessage_def logEnvelope_def outMessage_def
        initialRunState_def)
  have c: "calls (initialRunState (2::nat) [logEnvelope]) = []"
    "MessageType outMessage = LogMessage_OUT" "Message outMessage = [104, 105]"
    "SourceType outMessage = ''App''" "SourceInstance outMessage = ''0''"
    by (simp_all add: initialRunState_def outMessage_def)
  show ?thesis
    using h write_priority_and_fields [OF h, of flakyWriter] c by simp
qed

text \<open>
  Claim C1, as stated, fails: with a writer that connects and whose write fails, one
  iteration makes a failed \<open>Write\<close> and the error callback is never invoked.
\<close>

theorem failed_write_not_reported:
  "length (filter isFailedWrite
     (calls (snd (RunLoop brokenPipeWriter exampleSink linearBackoff [OtherCase]
                    (initialRunState () [logEnvelope]))))) = 1 \<and>
   filter isCallback
     (calls (snd (RunLoop brokenPipeWriter exampleSink linearBackoff [OtherCase]
                    (initialRunState () [logEnvelope])))) = []"
  by (simp add: loopBody_def connectPhase_def activityPhase_def initialRunState_def
      brokenPipeWriter_def sendLogMessage_def logEnvelope_def outMessage_def GetEventType_def
      GetLogMessage_def messagePriorityValue_def GetMessageType_def GetMessage_def
      GetSourceType_def GetSourceInstance_def exampleSink_def)

text \<open>
  Claim C1, amended. In every run of the loop the error callback is invoked once for
  each failed \<open>Connect\<close> and never otherwise, each time with the sink's stream id and
  destination id, and such an iteration then waits out the backoff. A failed \<open>Write\<close>
  invokes no callback: the iteration records only the \<open>Write\<close>, adds one to the retry
  counter and leaves the sink disconnected, so that the next iteration connects again.
\<close>

theorem failed_connect_reported:
  fixes W :: "'w Writer"
  shows "length (filter isCallback (calls (snd (RunLoop W s bo cs (initialRunState w out))))) =
           length (filter isFailedConnect (calls (snd (RunLoop W s bo cs (initialRunState w out))))) \<and>
         (\<forall>x \<in> set (calls (snd (RunLoop W s bo cs (initialRunState w out)))).
            isCallback x \<longrightarrow> callbackFor s x) \<and>
         (\<not> connected st \<longrightarrow> Connect W (writer st) = (Some err, w') \<longrightarrow>
            loopBody W s bo OtherCase st =
              (Continue,
               st\<lparr>writer := w',
                  calls := calls st @
                    [ConnectCalled (Some err),
                     HandleSendError (drainUrl s, bo (numberOfTries st), err) (appId s) (drainUrl s),
                     TimerReset (bo (numberOfTries st))],
                  numberOfTries := numberOfTries st + 1\<rparr>)) \<and>
         (connected st \<longrightarrow> bufferOut st = v # rest \<longrightarrow> isLogKind v \<longrightarrow>
          sendArgs v = Some (p, b, sty, si, ts) \<longrightarrow>
          Write W p b sty si ts (writer st) = ((n, Some err), w') \<longrightarrow>
            loopBody W s bo OtherCase st =
              (Continue,
               st\<lparr>bufferOut := rest, writer := w',
                  calls := calls st @ [WriteCalled p b sty si ts (Some err)],
                  numberOfTries := numberOfTries st + 1, connected := False\<rparr>))"
proof -
  let ?I = "\<lambda>st :: 'w RunState.
      length (filter isCallback (calls st)) = length (filter isFailedConnect (calls st)) \<and>
      (\<forall>x \<in> set (calls st). isCallback x \<longrightarrow> callbackFor s x)"
  have "?I (snd (RunLoop W s bo cs (initialRunState w out)))"
  proof (rule RunLoop_invariant [where I = ?I])
    fix c f and st st' :: "'w RunState"
    assume I: "?I st" and b: "loopBody W s bo c st = (f, st')"
    from loopBody_callbacks [OF b] I show "?I st'" by auto
  next
    fix st :: "'w RunState"
    assume "?I st"
    then show "?I (deferred W st)" by (simp add: deferred_def)
  next
    show "?I (initialRunState w out)" by (simp add: initialRunState_def)
  qed
  then show ?thesis
    using refused_step [of st W err w' s bo]
      failed_write_step [of st v rest p b sty si ts W n err w' s bo]
    by blast
qed

theorem failed_connect_reported_witness:
  "calls (snd (RunLoop flakyWriter exampleSink linearBackoff [OtherCase] (initialRunState 0 []))) =
     [ConnectCalled (Some ''connection refused''),
      HandleSendError (''syslog://drain.example:514'', 1000000, ''connection refused'')
        ''app-1'' ''syslog://drain.example:514'',
      TimerReset 1000000] \<and>
   length (filter isCallback
     (calls (snd (RunLoop flakyWriter exampleSink linearBackoff [OtherCase] (initialRunState 0 []))))) =
   length (filter isFailedConnect
     (calls (snd (RunLoop flakyWriter exampleSink linearBackoff [OtherCase] (initialRunState 0 []))))) \<and>
   list_all (callbackFor exampleSink)
     (filter isCallback
        (calls (snd (RunLoop flakyWriter exampleSink linearBackoff [OtherCase]
                       (initialRunState 0 []))))) \<and>
   \<not> connected (initialRunState (0::nat) []) \<and>
   Connect flakyWriter (writer (initialRunState 0 [])) = (Some ''connection refused'', 1) \<and>
   connected ((initialRunState () [logEnvelope])\<lparr>connected := True\<rparr>) \<and>
   isLogKind logEnvelope \<and>
   sendArgs logEnvelope = Some (14, [104, 105], ''App'', ''0'', 1000) \<and>
   Write brokenPipeWriter 14 [104, 105] ''App'' ''0'' 1000 () = ((0, Some ''broken pipe''), ()) \<and>
   loopBody brokenPipeWriter exampleSink linearBackoff OtherCase
       ((initialRunState () [logEnvelope])\<lparr>connected := True\<rparr>) =
     (Continue,
      \<lparr>numberOfTries = 1, connected = False, writer = (), bufferOut = [],
       calls = [WriteCalled 14 [104, 105] ''App'' ''0'' 1000 (Some ''broken pipe'')]\<rparr>)"
proof -
  have run: "calls (snd (RunLoop flakyWriter exampleSink linearBackoff [OtherCase] (initialRunState 0 []))) =
     [ConnectCalled (Some ''connection refused''),
      HandleSendError (''syslog://drain.example:514'', 1000000, ''connection refused'')
        ''app-1'' ''syslog://drain.example:514'',
      TimerReset 1000000]"
    by (simp add: loopBody_def connectPhase_def initialRunState_def flakyWriter_def
        exampleSink_def linearBackoff_def Let_def)
  have h: "\<not> connected (initialRunState (0::nat) [])"
    "Connect flakyWriter (writer (initialRunState 0 [])) = (Some ''connection refused'', 1)"
    "connected ((initialRunState () [logEnvelope])\<lparr>connected := True\<rparr>)"
    "bufferOut ((initialRunState () [logEnvelope])\<lparr>connected := True\<rparr>) = logEnvelope # []"
    "isLogKind logEnvelope"
    "sendArgs logEnvelope = Some (14, [104, 105], ''App'', ''0'', 1000)"
    "Write brokenPipeWriter 14 [104, 105] ''App'' ''0'' 1000
       (writer ((initialRunState () [logEnvelope])\<lparr>connected := True\<rparr>)) =
     ((0, Some ''broken pipe''), ())"
    by (simp_all add: initialRunState_def flakyWriter_def brokenPipeWriter_def isLogKind_def
        sendArgs_def logEnvelope_def outMessage_def GetEventType_def GetLogMessage_def
        messagePriorityValue_def GetMessageType_def)
  note t = failed_connect_reported [where W = flakyWriter and s = exampleSink
      and bo = linearBackoff and cs = "[OtherCase]" and w = 0 and out = "[]"
      and st = "initialRunState 0 []" and err = "''connection refused''" and w' = 1]
  note u = failed_connect_reported [where W = brokenPipeWriter and s = exampleSink
      and bo = linearBackoff and cs = "[]" and w = "()" and out = "[]"
      and st = "(initialRunState () [logEnvelope])\<lparr>connected := True\<rparr>"
      and err = "''broken pipe''" and w' = "()" and v = logEnvelope and rest = "[]"
      and p = 14 and b = "[104, 105]" and sty = "''App''" and si = "''0''" and ts = 1000
      and n = 0]
  have w: "loopBody brokenPipeWriter exampleSink linearBackoff OtherCase
       ((initialRunState () [logEnvelope])\<lparr>connected := True\<rparr>) =
     (Continue,
      \<lparr>numberOfTries = 1, connected = False, writer = (), bufferOut = [],
       calls = [WriteCalled 14 [104, 105] ''App'' ''0'' 1000 (Some ''broken pipe'')]\<rparr>)"
    using u h by (simp add: initialRunState_def)
  show ?thesis using run t h w by (simp add: list_all_iff)
qed

text \<open>
  Claim C8. When the sink is in the backoff wait after a failed connect and the
  disconnect signal is the case its \<open>select\<close> takes, \<open>Run\<close> returns at once: whatever the
  sleep duration and whatever would have come next, nothing follows the timer reset but
  the deferred \<open>Close\<close>, and the retry counter is not touched.
\<close>

theorem disconnect_ends_backoff_wait:
  assumes "\<not> connected st" and "Connect W (writer st) = (Some err, w')"
  shows "RunLoop W s bo (DisconnectCase # cs) st =
     (Returned,
      st\<lparr>writer := Close W w',
         calls := calls st @
           [ConnectCalled (Some err),
            HandleSendError (drainUrl s, bo (numberOfTries st), err) (appId s) (drainUrl s),
            TimerReset (bo (numberOfTries st)),
            CloseCalled]\<rparr>)"
  using assms connectPhase_failed(1) [OF assms(2), of s bo]
  by (simp add: loopBody_def deferred_def)

theorem disconnect_ends_backoff_wait_witness:
  "\<not> connected (initialRunState (0::nat) []) \<and>
   Connect flakyWriter (writer (initialRunState 0 [])) = (Some ''connection refused'', 1) \<and>
   RunLoop flakyWriter exampleSink linearBackoff [DisconnectCase, OtherCase, OtherCase]
       (initialRunState 0 []) =
     (Returned,
      \<lparr>numberOfTries = 0, connected = False, writer = 1, bufferOut = [],
       calls =
         [ConnectCalled (Some ''connection refused''),
          HandleSendError (''syslog://drain.example:514'', 1000000, ''connection refused'')
            ''app-1'' ''syslog://drain.example:514'',
          TimerReset 1000000,
          CloseCalled]\<rparr>)"
proof -
  have h: "\<not> connected (initialRunState (0::nat) [])"
    "Connect flakyWriter (writer (initialRunState 0 [])) = (Some ''connection refused'', 1)"
    by (simp_all add: initialRunState_def flakyWriter_def)
  show ?thesis
    using h disconnect_ends_backoff_wait [OF h, of exampleSink linearBackoff "[OtherCase, OtherCase]"]
    by (simp add: initialRunState_def flakyWriter_def exampleSink_def linearBackoff_def)
qed

lemma two_refused_then_accepted:
  fixes W :: "'w Writer" and s :: SyslogSink and bo :: "go_int \<Rightarrow> duration"
    and rest :: "Envelope list"
  assumes c1: "Connect W w0 = (Some e1, w1)" and c2: "Connect W w1 = (Some e2, w2)"
    and c3: "Connect W w2 = (None, w3)"
    and ns: "\<forall>x \<in> set ns. \<not> isLogKind x"
    and v: "isLogKind v" "sendArgs v = Some (p, b, sty, si, ts)"
    and wr: "Write W p b sty si ts w3 = ((n, None), w4)"
  defines "init \<equiv> initialRunState w0 (ns @ v # rest)"
  defines "st2 \<equiv> init\<lparr>writer := w2,
      calls := [ConnectCalled (Some e1), HandleSendError (drainUrl s, bo 0, e1) (appId s) (drainUrl s), TimerReset (bo 0),
                ConnectCalled (Some e2), HandleSendError (drainUrl s, bo 1, e2) (appId s) (drainUrl s), TimerReset (bo 1)],
      numberOfTries := 2\<rparr>"
  defines "st3 \<equiv> st2\<lparr>writer := w3, connected := True, calls := calls st2 @ [ConnectCalled None]\<rparr>"
  shows "RunLoop W s bo [OtherCase, OtherCase] init = (Running, st2)"
    and "connectPhase W s bo c st2 = (FallThrough, st3)"
    and "1 \<le> k \<Longrightarrow> k \<le> length ns \<Longrightarrow>
         RunLoop W s bo (replicate (2 + k) OtherCase) init = (Running, st3\<lparr>bufferOut := drop k ns @ v # rest\<rparr>)"
    and "RunLoop W s bo (replicate (3 + length ns) OtherCase) init =
           (Running, st3\<lparr>bufferOut := rest, writer := w4,
                calls := calls st3 @ [WriteCalled p b sty si ts None], numberOfTries := 0, connected := True\<rparr>)"
proof -
  have i0: "\<not> connected init" "writer init = w0" "numberOfTries init = 0" "calls init = []"
    by (simp_all add: init_def initialRunState_def)
  let ?st1 = "init\<lparr>writer := w1, calls := calls init @ [ConnectCalled (Some e1),
               HandleSendError (drainUrl s, bo (numberOfTries init), e1) (appId s) (drainUrl s),
               TimerReset (bo (numberOfTries init))], numberOfTries := numberOfTries init + 1\<rparr>"
  have s1: "loopBody W s bo OtherCase init = (Continue, ?st1)"
    using refused_step [of init W e1 w1 s bo] i0 c1 by simp
  have s2: "loopBody W s bo OtherCase ?st1 = (Continue, st2)"
    using refused_step [of ?st1 W e2 w2 s bo] i0 c2 by (simp add: st2_def)
  show two: "RunLoop W s bo [OtherCase, OtherCase] init = (Running, st2)"
    using s1 s2 by simp
  have st2: "\<not> connected st2" "writer st2 = w2" "numberOfTries st2 = 2"
    using i0 by (simp_all add: st2_def)
  show "connectPhase W s bo c st2 = (FallThrough, st3)"
    using connectPhase_succeeded [of W st2 w3 s bo c] c3 st2 by (simp add: st3_def)
  have st3: "connected st3" "bufferOut st3 = ns @ v # rest" "writer st3 = w3"
    by (simp_all add: st3_def st2_def init_def initialRunState_def)
  have third: "RunLoop W s bo (OtherCase # cs) st2 = RunLoop W s bo (OtherCase # cs) st3" for cs
    using accepted_step [of st2 W w3 s bo OtherCase] st2 c3 by (simp add: st3_def)
  have from2: "RunLoop W s bo (replicate (2 + j) OtherCase) init = RunLoop W s bo (replicate j OtherCase) st2" for j
    using RunLoop_append [of W s bo "[OtherCase, OtherCase]" "replicate j OtherCase" init] two
    by (simp add: numeral_2_eq_2)
  {
    assume k: "1 \<le> k" "k \<le> length ns"
    have "bufferOut st3 = take k ns @ (drop k ns @ v # rest)" using st3 by simp
    moreover have "\<forall>x \<in> set (take k ns). \<not> isLogKind x" using ns by (meson in_set_takeD)
    ultimately have "RunLoop W s bo (replicate (length (take k ns)) OtherCase) st3 =
        (Running, st3\<lparr>bufferOut := drop k ns @ v # rest\<rparr>)"
      using skip_nonlog [of st3 "take k ns" "drop k ns @ v # rest" W s bo] st3(1) by blast
    then have a: "RunLoop W s bo (replicate k OtherCase) st3 = (Running, st3\<lparr>bufferOut := drop k ns @ v # rest\<rparr>)"
      using k by (simp add: min_absorb2)
    obtain j where j: "k = Suc j" using k by (cases k) auto
    show "RunLoop W s bo (replicate (2 + k) OtherCase) init = (Running, st3\<lparr>bufferOut := drop k ns @ v # rest\<rparr>)"
      using from2 [of k] third [of "replicate j OtherCase"] a j by simp
  }
  have skip: "RunLoop W s bo (replicate (length ns) OtherCase) st3 = (Running, st3\<lparr>bufferOut := v # rest\<rparr>)"
    using skip_nonlog [of st3 ns "v # rest" W s bo] st3 ns by blast
  have w: "loopBody W s bo OtherCase (st3\<lparr>bufferOut := v # rest\<rparr>) =
      (Continue, st3\<lparr>bufferOut := rest, writer := w4,
                calls := calls st3 @ [WriteCalled p b sty si ts None], numberOfTries := 0, connected := True\<rparr>)"
    using successful_write_step [of "st3\<lparr>bufferOut := v # rest\<rparr>" v rest p b sty si ts W n w4 s bo] st3 v wr
    by simp
  have "RunLoop W s bo (replicate (Suc (length ns)) OtherCase) st3 =
      (Running, st3\<lparr>bufferOut := rest, writer := w4,
                calls := calls st3 @ [WriteCalled p b sty si ts None], numberOfTries := 0, connected := True\<rparr>)"
    using RunLoop_append [of W s bo "replicate (length ns) OtherCase" "[OtherCase]" st3] skip w
    by (simp add: replicate_append_same)
  then show "RunLoop W s bo (replicate (3 + length ns) OtherCase) init =
           (Running, st3\<lparr>bufferOut := rest, writer := w4,
                calls := calls st3 @ [WriteCalled p b sty si ts None], numberOfTries := 0, connected := True\<rparr>)"
    using from2 [of "Suc (length ns)"] third [of "replicate (length ns) OtherCase"]
    by (simp add: numeral_3_eq_3)
qed

text \<open>
  Claim C2. The retry counter starts at 0. In every iteration it becomes 0 when the
  iteration made a successful \<open>Write\<close>; otherwise it grows by one when the iteration had
  a failed \<open>Connect\<close> and went on after the backoff wait, or a failed \<open>Write\<close>; otherwise
  it keeps its value, and a successful \<open>Connect\<close> by itself keeps it. When \<open>Connect\<close>
  fails twice and then succeeds, the counter is 2 after the two failures and on
  entering the connected state, stays 2 while items that are not log messages pass, and
  is 0 after the first successful \<open>Write\<close>.
\<close>

theorem retry_counter:
  fixes W :: "'w Writer" and s :: SyslogSink and bo :: "go_int \<Rightarrow> duration"
    and rest :: "Envelope list"
  shows "numberOfTries (initialRunState w out) = 0 \<and>
    numberOfTries (snd (loopBody W s bo c st)) =
      (if list_ex isSuccessfulWrite
            (drop (length (calls st)) (calls (snd (loopBody W s bo c st)))) then 0
       else if (list_ex isFailedConnect
                  (drop (length (calls st)) (calls (snd (loopBody W s bo c st)))) \<and>
                fst (loopBody W s bo c st) = Continue) \<or>
               list_ex isFailedWrite
                 (drop (length (calls st)) (calls (snd (loopBody W s bo c st))))
         then numberOfTries st + 1
       else numberOfTries st) \<and>
    (Connect W (writer st) = (None, w') \<longrightarrow>
       fst (connectPhase W s bo c st) = FallThrough \<and>
       connected (snd (connectPhase W s bo c st)) \<and>
       numberOfTries (snd (connectPhase W s bo c st)) = numberOfTries st) \<and>
    (Connect W wa = (Some erra, wb) \<longrightarrow> Connect W wb = (Some errb, wc) \<longrightarrow>
     Connect W wc = (None, wd) \<longrightarrow>
     (\<forall>x \<in> set ns. \<not> isLogKind x) \<longrightarrow> isLogKind v \<longrightarrow>
     sendArgs v = Some (p, b, sty, si, ts) \<longrightarrow>
     Write W p b sty si ts wd = ((n, None), we) \<longrightarrow>
       fst (RunLoop W s bo [OtherCase, OtherCase] (initialRunState wa (ns @ v # rest))) = Running \<and>
       numberOfTries
         (snd (RunLoop W s bo [OtherCase, OtherCase] (initialRunState wa (ns @ v # rest)))) = 2 \<and>
       \<not> connected
         (snd (RunLoop W s bo [OtherCase, OtherCase] (initialRunState wa (ns @ v # rest)))) \<and>
       fst (connectPhase W s bo c
              (snd (RunLoop W s bo [OtherCase, OtherCase] (initialRunState wa (ns @ v # rest))))) =
         FallThrough \<and>
       numberOfTries
         (snd (connectPhase W s bo c
                 (snd (RunLoop W s bo [OtherCase, OtherCase]
                         (initialRunState wa (ns @ v # rest)))))) = 2 \<and>
       connected
         (snd (connectPhase W s bo c
                 (snd (RunLoop W s bo [OtherCase, OtherCase]
                         (initialRunState wa (ns @ v # rest)))))) \<and>
       (1 \<le> k \<longrightarrow> k \<le> length ns \<longrightarrow>
          fst (RunLoop W s bo (replicate (2 + k) OtherCase)
                 (initialRunState wa (ns @ v # rest))) = Running \<and>
          numberOfTries
            (snd (RunLoop W s bo (replicate (2 + k) OtherCase)
                    (initialRunState wa (ns @ v # rest)))) = 2 \<and>
          connected
            (snd (RunLoop W s bo (replicate (2 + k) OtherCase)
                    (initialRunState wa (ns @ v # rest))))) \<and>
       numberOfTries
         (snd (RunLoop W s bo (replicate (3 + length ns) OtherCase)
                 (initialRunState wa (ns @ v # rest)))) = 0 \<and>
       connected
         (snd (RunLoop W s bo (replicate (3 + length ns) OtherCase)
                 (initialRunState wa (ns @ v # rest)))) \<and>
       list_ex isSuccessfulWrite
         (calls (snd (RunLoop W s bo (replicate (3 + length ns) OtherCase)
                        (initialRunState wa (ns @ v # rest))))))"
proof (intro conjI impI)
  show "numberOfTries (initialRunState w out) = 0"
    by (simp add: initialRunState_def)
  show "numberOfTries (snd (loopBody W s bo c st)) =
      (if list_ex isSuccessfulWrite
            (drop (length (calls st)) (calls (snd (loopBody W s bo c st)))) then 0
       else if (list_ex isFailedConnect
                  (drop (length (calls st)) (calls (snd (loopBody W s bo c st)))) \<and>
                fst (loopBody W s bo c st) = Continue) \<or>
               list_ex isFailedWrite
                 (drop (length (calls st)) (calls (snd (loopBody W s bo c st))))
         then numberOfTries st + 1
       else numberOfTries st)"
    using loopBody_tries [of W s bo c st "fst (loopBody W s bo c st)" "snd (loopBody W s bo c st)"]
    by simp
next
  assume "Connect W (writer st) = (None, w')"
  note ok = connectPhase_succeeded [OF this, of s bo c]
  show "fst (connectPhase W s bo c st) = FallThrough" using ok by simp
  show "connected (snd (connectPhase W s bo c st))" using ok by simp
  show "numberOfTries (snd (connectPhase W s bo c st)) = numberOfTries st" using ok by simp
next
  assume a: "Connect W wa = (Some erra, wb)" "Connect W wb = (Some errb, wc)"
    "Connect W wc = (None, wd)" "\<forall>x \<in> set ns. \<not> isLogKind x" "isLogKind v"
    "sendArgs v = Some (p, b, sty, si, ts)" "Write W p b sty si ts wd = ((n, None), we)"
  note sc = two_refused_then_accepted [OF a, where s = s and bo = bo and rest = rest]
  show "fst (RunLoop W s bo [OtherCase, OtherCase] (initialRunState wa (ns @ v # rest))) = Running"
    using sc(1) by simp
  show "numberOfTries
         (snd (RunLoop W s bo [OtherCase, OtherCase] (initialRunState wa (ns @ v # rest)))) = 2"
    using sc(1) by simp
  show "\<not> connected
         (snd (RunLoop W s bo [OtherCase, OtherCase] (initialRunState wa (ns @ v # rest))))"
    using sc(1) by (simp add: initialRunState_def)
  show "fst (connectPhase W s bo c
              (snd (RunLoop W s bo [OtherCase, OtherCase] (initialRunState wa (ns @ v # rest))))) =
         FallThrough"
    using sc(1) sc(2) [of c] by simp
  show "numberOfTries
         (snd (connectPhase W s bo c
                 (snd (RunLoop W s bo [OtherCase, OtherCase]
                         (initialRunState wa (ns @ v # rest)))))) = 2"
    using sc(1) sc(2) [of c] by simp
  show "connected
         (snd (connectPhase W s bo c
                 (snd (RunLoop W s bo [OtherCase, OtherCase]
                         (initialRunState wa (ns @ v # rest))))))"
    using sc(1) sc(2) [of c] by simp
  show "numberOfTries
         (snd (RunLoop W s bo (replicate (3 + length ns) OtherCase)
                 (initialRunState wa (ns @ v # rest)))) = 0"
    using sc(4) by simp
  show "connected
         (snd (RunLoop W s bo (replicate (3 + length ns) OtherCase)
                 (initialRunState wa (ns @ v # rest))))"
    using sc(4) by simp
  show "list_ex isSuccessfulWrite
         (calls (snd (RunLoop W s bo (replicate (3 + length ns) OtherCase)
                        (initialRunState wa (ns @ v # rest)))))"
    using sc(4) by simp
  {
    assume k: "1 \<le> k" "k \<le> length ns"
    note r = sc(3) [OF k]
    show "fst (RunLoop W s bo (replicate (2 + k) OtherCase)
                 (initialRunState wa (ns @ v # rest))) = Running"
      using r by simp
    show "numberOfTries
            (snd (RunLoop W s bo (replicate (2 + k) OtherCase)
                    (initialRunState wa (ns @ v # rest)))) = 2"
      using r by simp
    show "connected
            (snd (RunLoop W s bo (replicate (2 + k) OtherCase)
                    (initialRunState wa (ns @ v # rest))))"
      using r by simp
  }
qed

theorem retry_counter_witness:
  "Connect flakyWriter 0 = (Some ''connection refused'', 1) \<and>
   Connect flakyWriter 1 = (Some ''connection refused'', 2) \<and>
   Connect flakyWriter 2 = (None, 3) \<and>
   \<not> isLogKind metricEnvelope \<and> isLogKind logEnvelope \<and>
   sendArgs logEnvelope = Some (14, [104, 105], ''App'', ''0'', 1000) \<and>
   Write flakyWriter 14 [104, 105] ''App'' ''0'' 1000 3 = ((2, None), 3) \<and>
   numberOfTries
     (snd (RunLoop flakyWriter exampleSink linearBackoff [OtherCase, OtherCase]
             (initialRunState 0 [metricEnvelope, logEnvelope]))) = 2 \<and>
   \<not> connected
     (snd (RunLoop flakyWriter exampleSink linearBackoff [OtherCase, OtherCase]
             (initialRunState 0 [metricEnvelope, logEnvelope]))) \<and>
   numberOfTries
     (snd (RunLoop flakyWriter exampleSink linearBackoff (replicate 3 OtherCase)
             (initialRunState 0 [metricEnvelope, logEnvelope]))) = 2 \<and>
   connected
     (snd (RunLoop flakyWriter exampleSink linearBackoff (replicate 3 OtherCase)
             (initialRunState 0 [metricEnvelope, logEnvelope]))) \<and>
   numberOfTries
     (snd (RunLoop flakyWriter exampleSink linearBackoff (replicate 4 OtherCase)
             (initialRunState 0 [metricEnvelope, logEnvelope]))) = 0"
proof -
  have h: "Connect flakyWriter 0 = (Some ''connection refused'', 1)"
    "Connect flakyWriter 1 = (Some ''connection refused'', 2)"
    "Connect flakyWriter 2 = (None, 3)"
    "\<And>x. x \<in> set [metricEnvelope] \<Longrightarrow> \<not> isLogKind x"
    "isLogKind logEnvelope"
    "sendArgs logEnvelope = Some (14, [104, 105], ''App'', ''0'', 1000)"
    "Write flakyWriter 14 [104, 105] ''App'' ''0'' 1000 3 = ((2, None), 3)"
    by (simp_all add: flakyWriter_def isLogKind_def sendArgs_def logEnvelope_def
        metricEnvelope_def outMessage_def GetEventType_def GetLogMessage_def
        messagePriorityValue_def GetMessageType_def)
  note t = retry_counter [where W = flakyWriter and s = exampleSink and bo = linearBackoff
      and wa = 0 and erra = "''connection refused''" and wb = 1
      and errb = "''connection refused''" and wc = 2 and wd = 3
      and ns = "[metricEnvelope]" and v = logEnvelope and rest = "[]"
      and p = 14 and b = "[104, 105]" and sty = "''App''" and si = "''0''" and ts = 1000
      and n = 2 and we = 3 and k = 1]
  note sc = t [THEN conjunct2, THEN conjunct2, THEN conjunct2, rule_format, OF h]
  have three: "replicate (2 + 1) OtherCase = replicate 3 OtherCase"
    and four: "replicate (3 + length [metricEnvelope]) OtherCase = replicate 4 OtherCase"
    by simp_all
  show ?thesis using h sc unfolding three four by simp
qed

text \<open>
  Claim C3. The filter goroutine forwards only log envelopes, in their order. In every
  run of the loop, whatever the buffer delivers, the \<open>Write\<close> calls made are exactly
  those of the log envelopes among the items received from the buffer, in order: an item
  of another kind is never written. So when the input holds no log envelope, and the
  buffer given nothing delivers no log envelope of its own, nothing is sent to the
  writer.
\<close>

theorem only_log_envelopes_written:
  fixes W :: "'w Writer"
  shows "(\<forall>v \<in> set (filterStage fs inputChan). isLogKind v) \<and>
    subseq (filterStage fs inputChan) (filter isLogKind inputChan) \<and>
    writesOf (calls (snd (RunLoop W s bo cs (initialRunState w out)))) =
      List.map_filter sendArgs
        (filter isLogKind (consumed out (snd (RunLoop W s bo cs (initialRunState w out))))) \<and>
    ((\<forall>v \<in> set inputChan. \<not> isLogKind v) \<longrightarrow>
     (\<forall>v \<in> set (B (messageDrainBufferSize s) (dropsondeOrigin s) (Identifier s) []).
        \<not> isLogKind v) \<longrightarrow>
       writesOf (calls (snd (Run W s bo B fs cs inputChan w))) = [])"
proof (intro conjI impI)
  show "\<forall>v \<in> set (filterStage fs inputChan). isLogKind v"
    using filterStage_logKind by blast
  show "subseq (filterStage fs inputChan) (filter isLogKind inputChan)"
    by (rule filterStage_subseq)
  show "writesOf (calls (snd (RunLoop W s bo cs (initialRunState w out)))) =
      List.map_filter sendArgs
        (filter isLogKind (consumed out (snd (RunLoop W s bo cs (initialRunState w out)))))"
    by (rule writes_are_consumed_log_envelopes)
next
  assume none: "\<forall>v \<in> set inputChan. \<not> isLogKind v"
    and quiet: "\<forall>v \<in> set (B (messageDrainBufferSize s) (dropsondeOrigin s) (Identifier s) []).
        \<not> isLogKind v"
  define out where "out = B (messageDrainBufferSize s) (dropsondeOrigin s) (Identifier s) []"
  define fin where "fin = snd (RunLoop W s bo cs (initialRunState w out))"
  have run: "Run W s bo B fs cs inputChan w = RunLoop W s bo cs (initialRunState w out)"
    using filterStage_nothing [OF none, of fs] by (simp add: Run_def out_def)
  have "set (consumed out fin) \<subseteq> set out"
    unfolding consumed_def by (rule set_take_subset)
  then have "filter isLogKind (consumed out fin) = []"
    using quiet unfolding out_def [symmetric] by (auto simp: filter_empty_conv)
  then have "writesOf (calls fin) = []"
    using writes_are_consumed_log_envelopes [of W s bo cs w out]
    unfolding fin_def [symmetric] by (simp add: map_filter_def)
  then show "writesOf (calls (snd (Run W s bo B fs cs inputChan w))) = []"
    unfolding run fin_def .
qed

theorem only_log_envelopes_written_witness:
  "\<not> isLogKind metricEnvelope \<and>
   stalledOverflowBuffer (messageDrainBufferSize exampleSink) (dropsondeOrigin exampleSink)
     (Identifier exampleSink) [] = [] \<and>
   writesOf (calls (snd (Run flakyWriter exampleSink linearBackoff stalledOverflowBuffer
       [OtherCase, OtherCase, OtherCase] [OtherCase, OtherCase, OtherCase]
       [metricEnvelope, metricEnvelope] 2))) = [] \<and>
   writesOf (calls (snd (Run flakyWriter exampleSink linearBackoff stalledOverflowBuffer
       [OtherCase, OtherCase, OtherCase] [OtherCase, OtherCase, OtherCase]
       [metricEnvelope, logEnvelope] 2))) = [(14, [104, 105], ''App'', ''0'', 1000)]"
proof -
  have q: "stalledOverflowBuffer (messageDrainBufferSize exampleSink)
      (dropsondeOrigin exampleSink) (Identifier exampleSink) [] = []"
    by (simp add: stalledOverflowBuffer_def runOps_def drain_def NewOverflowBuffer_def)
  have m: "\<not> isLogKind metricEnvelope"
    by (simp add: isLogKind_def metricEnvelope_def GetEventType_def)
  have h: "\<forall>v \<in> set [metricEnvelope, metricEnvelope]. \<not> isLogKind v"
    "\<forall>v \<in> set (stalledOverflowBuffer (messageDrainBufferSize exampleSink)
      (dropsondeOrigin exampleSink) (Identifier exampleSink) []). \<not> isLogKind v"
    using m q by simp_all
  note t = only_log_envelopes_written [where W = flakyWriter and s = exampleSink
      and B = stalledOverflowBuffer and inputChan = "[metricEnvelope, metricEnvelope]"
      and bo = linearBackoff and fs = "[OtherCase, OtherCase, OtherCase]"
      and cs = "[OtherCase, OtherCase, OtherCase]" and w = 2]
  have none: "writesOf (calls (snd (Run flakyWriter exampleSink linearBackoff stalledOverflowBuffer
       [OtherCase, OtherCase, OtherCase] [OtherCase, OtherCase, OtherCase]
       [metricEnvelope, metricEnvelope] 2))) = []"
    using t h by blast
  have one: "writesOf (calls (snd (Run flakyWriter exampleSink linearBackoff stalledOverflowBuffer
       [OtherCase, OtherCase, OtherCase] [OtherCase, OtherCase, OtherCase]
       [metricEnvelope, logEnvelope] 2))) = [(14, [104, 105], ''App'', ''0'', 1000)]"
    by (simp add: Run_def stalledOverflowBuffer_def runOps_def drain_def NewOverflowBuffer_def
        offer_def exampleSink_def Identifier_def initialRunState_def loopBody_def
        connectPhase_def activityPhase_def sendLogMessage_def flakyWriter_def
        logEnvelope_def metricEnvelope_def outMessage_def GetEventType_def GetLogMessage_def
        messagePriorityValue_def GetMessageType_def GetMessage_def GetSourceType_def
        GetSourceInstance_def writesOf_def map_filter_def deferred_def Let_def)
  show ?thesis using m q none one by simp
qed

section \<open>Properties of Disconnect\<close>

lemma DisconnectTimes_done:
  "disconnectOnceDone d \<Longrightarrow> DisconnectTimes n d = Inr d"
  by (induction n) (simp_all add: Disconnect_def)

text \<open>
  Claim C6. However many times \<open>Disconnect\<close> is called on a new sink, once or more, no
  call panics, and the disconnect channel has been closed exactly once; every call after
  the first returns the state as it found it. The guard is what keeps the calls safe:
  closing the channel again would panic.
\<close>

theorem disconnect_closes_once:
  "DisconnectTimes (Suc n) NewDisconnectState =
     Inr \<lparr>disconnectOnceDone = True, disconnectChannelClosed = True, closeCount = 1\<rparr> \<and>
   DisconnectTimes m
       \<lparr>disconnectOnceDone = True, disconnectChannelClosed = True, closeCount = 1\<rparr> =
     Inr \<lparr>disconnectOnceDone = True, disconnectChannelClosed = True, closeCount = 1\<rparr> \<and>
   Disconnect \<lparr>disconnectOnceDone = True, disconnectChannelClosed = True, closeCount = 1\<rparr> =
     Inr \<lparr>disconnectOnceDone = True, disconnectChannelClosed = True, closeCount = 1\<rparr> \<and>
   closeChannel (d\<lparr>disconnectChannelClosed := True\<rparr>) = Inl CloseOfClosedChannel"
  using DisconnectTimes_done
    [of "\<lparr>disconnectOnceDone = True, disconnectChannelClosed = True, closeCount = 1\<rparr>"]
  by (simp add: Disconnect_def closeChannel_def NewDisconnectState_def)

section \<open>Properties of the overflow buffer\<close>

lemma runOps_snoc: "runOps (ops @ [op]) b = applyOp op (runOps ops b)"
  by (simp add: runOps_def)

lemma applyOp_bounded:
  "length (pending b) \<le> capacity b \<Longrightarrow>
   length (pending (applyOp op b)) \<le> capacity (applyOp op b) \<and>
   capacity (applyOp op b) = capacity b"
  by (cases op) (auto simp: offer_def drain_def)

lemma runOps_bounded:
  "length (pending (runOps ops (NewOverflowBuffer cap))) \<le> cap \<and>
   capacity (runOps ops (NewOverflowBuffer cap)) = cap"
proof (induction ops rule: rev_induct)
  case Nil
  then show ?case by (simp add: runOps_def NewOverflowBuffer_def)
next
  case (snoc op ops)
  then show ?case using applyOp_bounded [of "runOps ops (NewOverflowBuffer cap)" op]
    by (simp add: runOps_snoc)
qed

lemma offers_fifo:
  "pending (runOps (map Offer xs) (NewOverflowBuffer cap)) = drop (length xs - cap) xs \<and>
   droppedCount (runOps (map Offer xs) (NewOverflowBuffer cap)) = length xs - cap \<and>
   capacity (runOps (map Offer xs) (NewOverflowBuffer cap)) = cap"
proof (induction xs rule: rev_induct)
  case Nil
  then show ?case by (simp add: runOps_def NewOverflowBuffer_def)
next
  case (snoc x xs)
  show ?case
  proof (cases "cap = 0")
    case True
    then show ?thesis using snoc by (simp add: runOps_snoc offer_def)
  next
    case False
    show ?thesis
    proof (cases "cap \<le> length xs")
      case True
      then have "tl (drop (length xs - cap) xs) = drop (Suc (length xs) - cap) xs"
        by (simp add: drop_Suc [symmetric] tl_drop Suc_diff_le)
      then show ?thesis using snoc True False by (simp add: runOps_snoc offer_def Suc_diff_le)
    next
      case False
      then show ?thesis using snoc \<open>cap \<noteq> 0\<close> by (simp add: runOps_snoc offer_def)
    qed
  qed
qed

lemma forwardedItems_map: "forwardedItems (map Forwarded xs) = xs"
  by (induction xs) simp_all

lemma notifications_map: "notifications (map Forwarded xs) = []"
  by (induction xs) simp_all

lemma drain_items:
  "forwardedItems (fst (drain b)) = pending b \<and>
   notifications (fst (drain b)) = (if 0 < droppedCount b then [droppedCount b] else [])"
  by (simp add: drain_def forwardedItems_map notifications_map)

text \<open>
  Claim C5. Whatever is offered and whenever it is drained, the buffer never holds more
  than its capacity. Fed a sequence with no drain in between, it holds the newest items,
  as many as the capacity allows, the oldest having been dropped first; the drain then
  delivers those items and, when any were dropped, one notification with the number
  dropped. With capacity 2 and five items the drain delivers the notification of 3
  dropped and the two newest items.
\<close>

theorem overflow_buffer_bounded_fifo:
  "length (pending (runOps ops (NewOverflowBuffer cap))) \<le> cap \<and>
   pending (runOps (map Offer xs) (NewOverflowBuffer cap)) = drop (length xs - cap) xs \<and>
   forwardedItems (fst (drain (runOps (map Offer xs) (NewOverflowBuffer cap)))) =
     drop (length xs - cap) xs \<and>
   notifications (fst (drain (runOps (map Offer xs) (NewOverflowBuffer cap)))) =
     (if cap < length xs then [length xs - cap] else []) \<and>
   \<not> isLogKind (toEnvelope (DroppedNotification n)) \<and>
   fst (drain (runOps (map Offer [a, b, c, d, e]) (NewOverflowBuffer 2))) =
     [DroppedNotification 3, Forwarded d, Forwarded e]"
proof (intro conjI)
  show "\<not> isLogKind (toEnvelope (DroppedNotification n))"
    by (simp add: isLogKind_def GetEventType_def)
  show "length (pending (runOps ops (NewOverflowBuffer cap))) \<le> cap"
    using runOps_bounded [of ops cap] by simp
  show "pending (runOps (map Offer xs) (NewOverflowBuffer cap)) = drop (length xs - cap) xs"
    using offers_fifo [of xs cap] by simp
  show "forwardedItems (fst (drain (runOps (map Offer xs) (NewOverflowBuffer cap)))) =
     drop (length xs - cap) xs"
    using offers_fifo [of xs cap] drain_items [of "runOps (map Offer xs) (NewOverflowBuffer cap)"]
    by simp
  show "notifications (fst (drain (runOps (map Offer xs) (NewOverflowBuffer cap)))) =
     (if cap < length xs then [length xs - cap] else [])"
    using offers_fifo [of xs cap] drain_items [of "runOps (map Offer xs) (NewOverflowBuffer cap)"]
    by simp
  show "fst (drain (runOps (map Offer [a, b, c, d, e]) (NewOverflowBuffer 2))) =
     [DroppedNotification 3, Forwarded d, Forwarded e]"
    by (simp add: runOps_def NewOverflowBuffer_def offer_def drain_def)
qed

section \<open>Properties of the event listener\<close>

subsection \<open>One datagram\<close>

lemma receiveDatagram_connection:
  "connection (listener (snd (receiveDatagram K rb p a w))) = connection (listener w)"
  by (simp add: receiveDatagram_def Let_def split: prod.splits)

lemma receiveDatagram_starts:
  assumes "startCalls w = map fst (filter (\<lambda>(a, known). \<not> known) (knownAndResetCalls w))"
  shows "startCalls (snd (receiveDatagram K rb p a w)) =
     map fst (filter (\<lambda>(a, known). \<not> known)
       (knownAndResetCalls (snd (receiveDatagram K rb p a w))))"
  using assms by (simp add: receiveDatagram_def Let_def split: prod.splits)

lemma receiveDatagram_room:
  assumes "length (dataChannel (listener w)) < dataChannelCapacity"
  shows "fst (receiveDatagram K rb p a w) = Reading"
    and "requester (snd (receiveDatagram K rb p a w)) = snd (K (requester w) a)"
    and "knownAndResetCalls (snd (receiveDatagram K rb p a w)) =
           knownAndResetCalls w @ [(a, fst (K (requester w) a))]"
    and "length (dataChannel (listener (snd (receiveDatagram K rb p a w)))) =
           Suc (length (dataChannel (listener w)))"
  using assms by (simp_all add: receiveDatagram_def Let_def split: prod.splits)

lemma read_make_copy:
  assumes "array rb < length h" "length (h ! array rb) = len rb" "length p \<le> len rb"
  shows "ReadFrom p rb h = (length p, h[array rb := p @ drop (length p) (h ! array rb)])"
    and "copy \<lparr>array = length h, len = length p\<rparr> (upTo rb (length p))
           (h[array rb := p @ drop (length p) (h ! array rb)] @ [replicate (length p) 0]) =
         h[array rb := p @ drop (length p) (h ! array rb)] @ [p]"
  using assms
  by (simp_all add: ReadFrom_def copy_def upTo_def Let_def min_def nth_append list_update_append)

lemma receiveDatagram_published:
  assumes room: "length (dataChannel (listener w)) < dataChannelCapacity"
    and apart: "publishedApart rb w" and fits: "length p \<le> len rb"
  shows "heap (snd (receiveDatagram K rb p a w)) =
           (heap w)[array rb := p @ drop (length p) (heap w ! array rb)] @ [p]"
    and "dataChannel (listener (snd (receiveDatagram K rb p a w))) =
           dataChannel (listener w) @ [\<lparr>array = length (heap w), len = length p\<rparr>]"
proof -
  have a: "array rb < length (heap w)" "length (heap w ! array rb) = len rb"
    using apart by (simp_all add: publishedApart_def)
  note rmc = read_make_copy [OF a fits]
  show "heap (snd (receiveDatagram K rb p a w)) =
           (heap w)[array rb := p @ drop (length p) (heap w ! array rb)] @ [p]"
    using room rmc by (simp add: receiveDatagram_def makeBytes_def Let_def split: prod.splits)
  show "dataChannel (listener (snd (receiveDatagram K rb p a w))) =
           dataChannel (listener w) @ [\<lparr>array = length (heap w), len = length p\<rparr>]"
    using room rmc by (simp add: receiveDatagram_def makeBytes_def Let_def split: prod.splits)
qed

lemma old_slice_kept:
  assumes "i < length h" "i \<noteq> j"
  shows "(h[j := x] @ [p]) ! i = h ! i"
  using assms by (simp add: nth_append)

lemma receiveDatagram_apart:
  assumes room: "length (dataChannel (listener w)) < dataChannelCapacity"
    and apart: "publishedApart rb w" and fits: "length p \<le> len rb"
  shows "publishedApart rb (snd (receiveDatagram K rb p a w))"
    and "map (payloadOf (heap (snd (receiveDatagram K rb p a w))))
           (dataChannel (listener (snd (receiveDatagram K rb p a w)))) =
         map (payloadOf (heap w)) (dataChannel (listener w)) @ [p]"
proof -
  note pub = receiveDatagram_published [OF room apart fits, of K a]
  have a: "array rb < length (heap w)" "length (heap w ! array rb) = len rb"
    and olds: "\<forall>sl \<in> set (dataChannel (listener w)). array sl < length (heap w) \<and>
        array sl \<noteq> array rb \<and> length (heap w ! array sl) = len sl"
    and dist: "distinct (map array (dataChannel (listener w)))"
    using apart by (simp_all add: publishedApart_def list_all_iff)
  have fresh: "length (heap w) \<notin> array ` set (dataChannel (listener w))"
    using olds by auto
  show "publishedApart rb (snd (receiveDatagram K rb p a w))"
    unfolding publishedApart_def pub
    using a olds dist fresh fits
    by (auto simp: list_all_iff nth_append)
  have "\<forall>sl \<in> set (dataChannel (listener w)).
      payloadOf ((heap w)[array rb := p @ drop (length p) (heap w ! array rb)] @ [p]) sl =
      payloadOf (heap w) sl"
    using olds by (simp add: payloadOf_def old_slice_kept)
  then show "map (payloadOf (heap (snd (receiveDatagram K rb p a w))))
           (dataChannel (listener (snd (receiveDatagram K rb p a w)))) =
         map (payloadOf (heap w)) (dataChannel (listener w)) @ [p]"
    unfolding pub by (simp add: payloadOf_def nth_append)
qed

subsection \<open>The read loop\<close>

lemma readLoop_connection:
  "connection (listener (snd (readLoop K rb reads w))) = connection (listener w)"
proof (induction reads arbitrary: w)
  case Nil
  then show ?case by simp
next
  case (Cons r rs)
  show ?case
  proof (cases r)
    case (Datagram p a)
    obtain st w' where rd: "receiveDatagram K rb p a w = (st, w')"
      by (cases "receiveDatagram K rb p a w")
    then have c: "connection (listener w') = connection (listener w)"
      using receiveDatagram_connection [of K rb p a w] by simp
    show ?thesis using rd c Datagram Cons.IH [of w'] by (cases st) simp_all
  next
    case (ReadError err)
    then show ?thesis by simp
  qed
qed

lemma readLoop_starts:
  "startCalls w = map fst (filter (\<lambda>(a, known). \<not> known) (knownAndResetCalls w)) \<Longrightarrow>
   startCalls (snd (readLoop K rb reads w)) =
     map fst (filter (\<lambda>(a, known). \<not> known) (knownAndResetCalls (snd (readLoop K rb reads w))))"
proof (induction reads arbitrary: w)
  case Nil
  then show ?case by simp
next
  case (Cons r rs)
  show ?case
  proof (cases r)
    case (Datagram p a)
    obtain st w' where rd: "receiveDatagram K rb p a w = (st, w')"
      by (cases "receiveDatagram K rb p a w")
    then have c: "startCalls w' = map fst (filter (\<lambda>(a, known). \<not> known) (knownAndResetCalls w'))"
      using receiveDatagram_starts [OF Cons.prems, of K rb p a] by simp
    show ?thesis using rd c Datagram Cons.IH [OF c] by (cases st) simp_all
  next
    case (ReadError err)
    then show ?thesis using Cons.prems by simp
  qed
qed

lemma readLoop_answers:
  "length (dataChannel (listener w)) + length reads \<le> dataChannelCapacity \<Longrightarrow>
   \<forall>r \<in> set reads. isDatagram r \<Longrightarrow>
   fst (readLoop K rb reads w) = Reading \<and>
   knownAndResetCalls (snd (readLoop K rb reads w)) =
     knownAndResetCalls w @ answers K (requester w) (map sender reads)"
proof (induction reads arbitrary: w)
  case Nil
  then show ?case by simp
next
  case (Cons r rs)
  then obtain p a where d: "r = Datagram p a" by (cases r) auto
  obtain st w' where r: "receiveDatagram K rb p a w = (st, w')"
    by (cases "receiveDatagram K rb p a w")
  have room: "length (dataChannel (listener w)) < dataChannelCapacity" using Cons.prems by simp
  note f = receiveDatagram_room [OF room, of K rb p a, unfolded r, simplified]
  have "fst (readLoop K rb rs w') = Reading \<and> knownAndResetCalls (snd (readLoop K rb rs w')) =
     knownAndResetCalls w' @ answers K (requester w') (map sender rs)"
    using Cons.IH [of w'] f Cons.prems by simp
  then show ?case using r f d by (simp split: prod.splits)
qed

lemma readLoop_published:
  "length (dataChannel (listener w)) + length reads \<le> dataChannelCapacity \<Longrightarrow>
   \<forall>r \<in> set reads. isDatagram r \<and> length (payload r) \<le> len rb \<Longrightarrow>
   publishedApart rb w \<Longrightarrow>
   publishedApart rb (snd (readLoop K rb reads w)) \<and>
   map (payloadOf (heap (snd (readLoop K rb reads w))))
       (dataChannel (listener (snd (readLoop K rb reads w)))) =
     map (payloadOf (heap w)) (dataChannel (listener w)) @ map payload reads \<and>
   map len (dataChannel (listener (snd (readLoop K rb reads w)))) =
     map len (dataChannel (listener w)) @ map (\<lambda>r. length (payload r)) reads"
proof (induction reads arbitrary: w)
  case Nil
  then show ?case by simp
next
  case (Cons r rs)
  then obtain p a where d: "r = Datagram p a" by (cases r) auto
  obtain st w' where r: "receiveDatagram K rb p a w = (st, w')"
    by (cases "receiveDatagram K rb p a w")
  have room: "length (dataChannel (listener w)) < dataChannelCapacity" using Cons.prems by simp
  have fits: "length p \<le> len rb" using Cons.prems d by simp
  note f = receiveDatagram_room [OF room, of K rb p a, unfolded r, simplified]
  note ap = receiveDatagram_apart [OF room Cons.prems(3) fits, of K a, unfolded r, simplified]
  note pub = receiveDatagram_published [OF room Cons.prems(3) fits, of K a, unfolded r, simplified]
  have ih: "publishedApart rb (snd (readLoop K rb rs w')) \<and>
   map (payloadOf (heap (snd (readLoop K rb rs w'))))
       (dataChannel (listener (snd (readLoop K rb rs w')))) =
     map (payloadOf (heap w')) (dataChannel (listener w')) @ map payload rs \<and>
   map len (dataChannel (listener (snd (readLoop K rb rs w')))) =
     map len (dataChannel (listener w')) @ map (\<lambda>r. length (payload r)) rs"
    using Cons.IH [of w'] f ap(1) Cons.prems by simp
  have loop: "readLoop K rb (r # rs) w = readLoop K rb rs w'"
    using r f d by simp
  show ?case unfolding loop using ih ap(2) pub d by simp
qed

subsection \<open>Start and Stop\<close>

lemma Start_listening:
  "Start K (Inr conn) reads (NewWorld h name r hp) =
     Inr (readLoop K \<lparr>array = length hp, len = 65535\<rparr> reads
            \<lparr>listener = (New h name)\<lparr>connection := Some conn\<rparr>,
             heap = hp @ [replicate 65535 0], requester = r, knownAndResetCalls = [],
             startCalls = []\<rparr>)"
  by (simp add: Start_def NewWorld_def makeBytes_def)

lemma Start_world_apart:
  "publishedApart \<lparr>array = length hp, len = 65535\<rparr>
     \<lparr>listener = (New h name)\<lparr>connection := Some conn\<rparr>,
      heap = hp @ [replicate 65535 0], requester = r, knownAndResetCalls = [],
      startCalls = []\<rparr>"
  by (simp add: publishedApart_def New_def)

text \<open>
  Claim C4. When the reads are datagrams, no more of them than the channel holds, each
  within the size of a UDP datagram, \<open>Start\<close> publishes one slice for each datagram, in
  arrival order; each slice holds the bytes of its datagram unchanged and has the length
  read; each names an array of exactly that length which is not the array of the read
  buffer, and no two name the same array.
\<close>

theorem datagrams_published_once_in_order:
  assumes "length reads \<le> dataChannelCapacity"
    and "\<forall>x \<in> set reads. isDatagram x \<and> length (payload x) \<le> 65535"
  shows "\<exists>w'. Start K (Inr conn) reads (NewWorld h name r hp) = Inr (Reading, w') \<and>
    map (payloadOf (heap w')) (dataChannel (listener w')) = map payload reads \<and>
    map len (dataChannel (listener w')) = map (\<lambda>x. length (payload x)) reads \<and>
    list_all (\<lambda>sl. array sl \<noteq> array (fst (makeBytes 65535 hp)) \<and>
                    array sl < length (heap w') \<and> length (heap w' ! array sl) = len sl)
      (dataChannel (listener w')) \<and>
    distinct (map array (dataChannel (listener w')))"
proof -
  let ?rb = "\<lparr>array = length hp, len = 65535\<rparr>"
  let ?w = "\<lparr>listener = (New h name)\<lparr>connection := Some conn\<rparr>,
             heap = hp @ [replicate 65535 0], requester = r, knownAndResetCalls = [],
             startCalls = []\<rparr>"
  have room: "length (dataChannel (listener ?w)) + length reads \<le> dataChannelCapacity"
    using assms(1) by (simp add: New_def)
  have fits: "\<forall>x \<in> set reads. isDatagram x \<and> length (payload x) \<le> len ?rb"
    using assms(2) by simp
  have dg: "\<forall>x \<in> set reads. isDatagram x" using assms(2) by simp
  note p = readLoop_published [OF room fits Start_world_apart, of K]
  note a = readLoop_answers [OF room dg, of K ?rb]
  have "Start K (Inr conn) reads (NewWorld h name r hp) = Inr (Reading, snd (readLoop K ?rb reads ?w))"
    using a unfolding Start_listening by (simp add: prod_eq_iff)
  moreover have "map (payloadOf (heap (snd (readLoop K ?rb reads ?w))))
      (dataChannel (listener (snd (readLoop K ?rb reads ?w)))) = map payload reads"
    using p by (simp add: New_def)
  moreover have "map len (dataChannel (listener (snd (readLoop K ?rb reads ?w)))) =
      map (\<lambda>x. length (payload x)) reads"
    using p by (simp add: New_def)
  moreover have "list_all (\<lambda>sl. array sl \<noteq> array (fst (makeBytes 65535 hp)) \<and>
                    array sl < length (heap (snd (readLoop K ?rb reads ?w))) \<and>
                    length (heap (snd (readLoop K ?rb reads ?w)) ! array sl) = len sl)
      (dataChannel (listener (snd (readLoop K ?rb reads ?w))))"
    using p by (simp add: publishedApart_def makeBytes_def list_all_iff)
  moreover have "distinct (map array (dataChannel (listener (snd (readLoop K ?rb reads ?w)))))"
    using p by (simp add: publishedApart_def)
  ultimately show ?thesis by blast
qed

theorem datagrams_published_once_in_order_witness:
  "length [Datagram [1, 2, 3] ''10.0.0.1:4000'', Datagram [4] ''10.0.0.2:4000'']
     \<le> dataChannelCapacity \<and>
   isDatagram (Datagram [1, 2, 3] ''10.0.0.1:4000'') \<and>
   length (payload (Datagram [1, 2, 3] ''10.0.0.1:4000'')) \<le> 65535 \<and>
   isDatagram (Datagram [4] ''10.0.0.2:4000'') \<and>
   length (payload (Datagram [4] ''10.0.0.2:4000'')) \<le> 65535 \<and>
   (\<exists>w'. Start rememberingRequester (Inr loopbackConn)
            [Datagram [1, 2, 3] ''10.0.0.1:4000'', Datagram [4] ''10.0.0.2:4000'']
            (NewWorld ''127.0.0.1:3457'' ''agentListener'' [] []) = Inr (Reading, w') \<and>
      map (payloadOf (heap w')) (dataChannel (listener w')) = [[1, 2, 3], [4]] \<and>
      map len (dataChannel (listener w')) = [3, 1] \<and>
      list_all (\<lambda>sl. array sl \<noteq> 0) (dataChannel (listener w')) \<and>
      distinct (map array (dataChannel (listener w'))))"
proof -
  have h: "length [Datagram [1, 2, 3] ''10.0.0.1:4000'', Datagram [4] ''10.0.0.2:4000'']
     \<le> dataChannelCapacity"
    "\<forall>x \<in> set [Datagram [1, 2, 3] ''10.0.0.1:4000'', Datagram [4] ''10.0.0.2:4000''].
       isDatagram x \<and> length (payload x) \<le> 65535"
    by (simp_all add: dataChannelCapacity_def)
  from datagrams_published_once_in_order [OF h, of rememberingRequester loopbackConn
      "''127.0.0.1:3457''" "''agentListener''" "[]" "[]"]
  obtain w' where w: "Start rememberingRequester (Inr loopbackConn)
            [Datagram [1, 2, 3] ''10.0.0.1:4000'', Datagram [4] ''10.0.0.2:4000'']
            (NewWorld ''127.0.0.1:3457'' ''agentListener'' [] []) = Inr (Reading, w')"
    "map (payloadOf (heap w')) (dataChannel (listener w')) =
       map payload [Datagram [1, 2, 3] ''10.0.0.1:4000'', Datagram [4] ''10.0.0.2:4000'']"
    "map len (dataChannel (listener w')) =
       map (\<lambda>x. length (payload x))
         [Datagram [1, 2, 3] ''10.0.0.1:4000'', Datagram [4] ''10.0.0.2:4000'']"
    "list_all (\<lambda>sl. array sl \<noteq> array (fst (makeBytes 65535 [])) \<and>
                    array sl < length (heap w') \<and> length (heap w' ! array sl) = len sl)
      (dataChannel (listener w'))"
    "distinct (map array (dataChannel (listener w')))"
    by blast
  have "list_all (\<lambda>sl. array sl \<noteq> 0) (dataChannel (listener w'))"
    using w(4) by (simp add: makeBytes_def list_all_iff)
  then have "Start rememberingRequester (Inr loopbackConn)
            [Datagram [1, 2, 3] ''10.0.0.1:4000'', Datagram [4] ''10.0.0.2:4000'']
            (NewWorld ''127.0.0.1:3457'' ''agentListener'' [] []) = Inr (Reading, w') \<and>
      map (payloadOf (heap w')) (dataChannel (listener w')) = [[1, 2, 3], [4]] \<and>
      map len (dataChannel (listener w')) = [3, 1] \<and>
      list_all (\<lambda>sl. array sl \<noteq> 0) (dataChannel (listener w')) \<and>
      distinct (map array (dataChannel (listener w')))"
    using w by simp
  then show ?thesis using h(1) by simp
qed

text \<open>
  Claim C7. In every run of the read loop the \<open>Start\<close> goroutines started are, in order,
  the sender addresses of exactly those calls of \<open>KnownAndReset\<close> that returned false, one
  for each such call. When the reads are datagrams and the channel has room for them,
  \<open>KnownAndReset\<close> is called once for each datagram, with its sender; so \<open>Start\<close> is
  started for a datagram if and only if \<open>KnownAndReset\<close> returned false for its sender,
  and a datagram whose sender is known starts nothing.
\<close>

theorem start_only_for_unknown_sender:
  "startCalls (snd (readLoop K rb reads (w\<lparr>knownAndResetCalls := [], startCalls := []\<rparr>))) =
     map fst (filter (\<lambda>(a, known). \<not> known)
       (knownAndResetCalls
          (snd (readLoop K rb reads (w\<lparr>knownAndResetCalls := [], startCalls := []\<rparr>))))) \<and>
   (length reads \<le> dataChannelCapacity \<longrightarrow> (\<forall>x \<in> set reads. isDatagram x) \<longrightarrow>
      (\<exists>w'. Start K (Inr conn) reads (NewWorld h name r hp) = Inr (Reading, w') \<and>
         knownAndResetCalls w' = answers K r (map sender reads) \<and>
         startCalls w' =
           map fst (filter (\<lambda>(a, known). \<not> known) (answers K r (map sender reads)))))"
proof (intro conjI impI)
  show "startCalls (snd (readLoop K rb reads (w\<lparr>knownAndResetCalls := [], startCalls := []\<rparr>))) =
     map fst (filter (\<lambda>(a, known). \<not> known)
       (knownAndResetCalls
          (snd (readLoop K rb reads (w\<lparr>knownAndResetCalls := [], startCalls := []\<rparr>)))))"
    by (rule readLoop_starts) simp
next
  assume len: "length reads \<le> dataChannelCapacity" and dg: "\<forall>x \<in> set reads. isDatagram x"
  let ?rb = "\<lparr>array = length hp, len = 65535\<rparr>"
  let ?w = "\<lparr>listener = (New h name)\<lparr>connection := Some conn\<rparr>,
             heap = hp @ [replicate 65535 0], requester = r, knownAndResetCalls = [],
             startCalls = []\<rparr>"
  have room: "length (dataChannel (listener ?w)) + length reads \<le> dataChannelCapacity"
    using len by (simp add: New_def)
  note a = readLoop_answers [OF room dg, of K ?rb]
  have s: "startCalls (snd (readLoop K ?rb reads ?w)) =
     map fst (filter (\<lambda>(a, known). \<not> known) (knownAndResetCalls (snd (readLoop K ?rb reads ?w))))"
    by (rule readLoop_starts) simp
  have "Start K (Inr conn) reads (NewWorld h name r hp) = Inr (Reading, snd (readLoop K ?rb reads ?w))"
    using a unfolding Start_listening by (simp add: prod_eq_iff)
  moreover have "knownAndResetCalls (snd (readLoop K ?rb reads ?w)) = answers K r (map sender reads)"
    using a by simp
  moreover have "startCalls (snd (readLoop K ?rb reads ?w)) =
      map fst (filter (\<lambda>(a, known). \<not> known) (answers K r (map sender reads)))"
    using a s by simp
  ultimately show "\<exists>w'. Start K (Inr conn) reads (NewWorld h name r hp) = Inr (Reading, w') \<and>
         knownAndResetCalls w' = answers K r (map sender reads) \<and>
         startCalls w' =
           map fst (filter (\<lambda>(a, known). \<not> known) (answers K r (map sender reads)))"
    by blast
qed

theorem start_only_for_unknown_sender_witness:
  "length [Datagram [1] ''10.0.0.1:4000'', Datagram [2] ''10.0.0.1:4000'']
     \<le> dataChannelCapacity \<and>
   isDatagram (Datagram [1] ''10.0.0.1:4000'') \<and>
   isDatagram (Datagram [2] ''10.0.0.1:4000'') \<and>
   (\<exists>w'. Start rememberingRequester (Inr loopbackConn)
            [Datagram [1] ''10.0.0.1:4000'', Datagram [2] ''10.0.0.1:4000'']
            (NewWorld ''127.0.0.1:3457'' ''agentListener'' [] []) = Inr (Reading, w') \<and>
      knownAndResetCalls w' = [(''10.0.0.1:4000'', False), (''10.0.0.1:4000'', True)] \<and>
      startCalls w' = [''10.0.0.1:4000''])"
proof -
  have h: "length [Datagram [1] ''10.0.0.1:4000'', Datagram [2] ''10.0.0.1:4000'']
     \<le> dataChannelCapacity"
    "\<forall>x \<in> set [Datagram [1] ''10.0.0.1:4000'', Datagram [2] ''10.0.0.1:4000'']. isDatagram x"
    by (simp_all add: dataChannelCapacity_def)
  have ans: "answers rememberingRequester []
      (map sender [Datagram [1] ''10.0.0.1:4000'', Datagram [2] ''10.0.0.1:4000'']) =
      [(''10.0.0.1:4000'', False), (''10.0.0.1:4000'', True)]"
    by (simp add: rememberingRequester_def)
  note t = start_only_for_unknown_sender [where K = rememberingRequester and r = "[]"
      and reads = "[Datagram [1] ''10.0.0.1:4000'', Datagram [2] ''10.0.0.1:4000'']"
      and conn = loopbackConn and h = "''127.0.0.1:3457''" and name = "''agentListener''"
      and hp = "[]", THEN conjunct2, rule_format, OF h(1)]
  have "\<exists>w'. Start rememberingRequester (Inr loopbackConn)
            [Datagram [1] ''10.0.0.1:4000'', Datagram [2] ''10.0.0.1:4000'']
            (NewWorld ''127.0.0.1:3457'' ''agentListener'' [] []) = Inr (Reading, w') \<and>
      knownAndResetCalls w' = [(''10.0.0.1:4000'', False), (''10.0.0.1:4000'', True)] \<and>
      startCalls w' = [''10.0.0.1:4000'']"
    using t h(2) unfolding ans by simp
  then show ?thesis using h(1) by simp
qed

text \<open>
  Claim C10. \<open>Stop\<close> on a listener whose \<open>Start\<close> has not stored the connection
  dereferences nil and panics, and it panics in no other state; when the bind fails
  \<open>Start\<close> ends without storing one; once \<open>Start\<close> has stored the connection, \<open>Stop\<close>
  closes it.
\<close>

theorem stop_before_start_panics:
  "Stop (New h name) = Inl NilPointerDereference \<and>
   (Stop l = Inl NilPointerDereference \<longleftrightarrow> connection l = None) \<and>
   Start K (Inl err) reads w = Inl (FailedToListen err) \<and>
   (\<exists>st w'. Start K (Inr conn) reads (NewWorld h name r hp) = Inr (st, w') \<and>
      connection (listener w') = Some conn \<and>
      Stop (listener w') = Inr ((listener w')\<lparr>connection := Some (conn\<lparr>closed := True\<rparr>)\<rparr>))"
proof (intro conjI)
  show "Stop (New h name) = Inl NilPointerDereference"
    by (simp add: Stop_def New_def)
  show "Stop l = Inl NilPointerDereference \<longleftrightarrow> connection l = None"
    by (simp add: Stop_def split: option.splits)
  show "Start K (Inl err) reads w = Inl (FailedToListen err)"
    by (simp add: Start_def)
  let ?rb = "\<lparr>array = length hp, len = 65535\<rparr>"
  let ?w = "\<lparr>listener = (New h name)\<lparr>connection := Some conn\<rparr>,
             heap = hp @ [replicate 65535 0], requester = r, knownAndResetCalls = [],
             startCalls = []\<rparr>"
  have c: "connection (listener (snd (readLoop K ?rb reads ?w))) = Some conn"
    using readLoop_connection [of K ?rb reads ?w] by simp
  have "Start K (Inr conn) reads (NewWorld h name r hp) =
      Inr (fst (readLoop K ?rb reads ?w), snd (readLoop K ?rb reads ?w))"
    unfolding Start_listening by simp
  moreover have "Stop (listener (snd (readLoop K ?rb reads ?w))) =
      Inr ((listener (snd (readLoop K ?rb reads ?w)))\<lparr>connection := Some (conn\<lparr>closed := True\<rparr>)\<rparr>)"
    using c by (simp add: Stop_def)
  ultimately show "\<exists>st w'. Start K (Inr conn) reads (NewWorld h name r hp) = Inr (st, w') \<and>
      connection (listener w') = Some conn \<and>
      Stop (listener w') = Inr ((listener w')\<lparr>connection := Some (conn\<lparr>closed := True\<rparr>)\<rparr>)"
    using c by blast
qed

end
